theory Spec2Isabelle
  imports Main "HOL-Library.Code_Target_Nat" "HOL-Library.Multiset"
begin

section \<open>JavaScript strings\<close>

text \<open>
  A JavaScript string is a sequence of UTF-16 code units. The regular expressions of the
  sources carry no \<open>u\<close> flag, so they work on code units; a code unit is modelled by its
  number. \<open>js\<close> turns a literal of this theory into such a string.
\<close>

type_synonym jsstring = "nat list"

definition js :: "string \<Rightarrow> jsstring" where
  "js s = map of_char s"

text \<open>
  Template-literal rendering of a boolean (\<^verbatim>\<open>`${b}`\<close>), and the decimal numeral of a
  non-negative integer (what \<^verbatim>\<open>`${n}`\<close> writes for the integers semver admits, which are
  at most \<open>2^53 - 1\<close>).
\<close>

definition show_bool :: "bool \<Rightarrow> jsstring" where
  "show_bool b = (if b then js ''true'' else js ''false'')"

fun show_nat :: "nat \<Rightarrow> jsstring" where
  "show_nat n = (if n < 10 then [48 + n] else show_nat (n div 10) @ [48 + n mod 10])"

declare show_nat.simps [simp del]


section \<open>The language-server supervisor (emulator/server/language-server.ts)\<close>

text \<open>A thrown \<^verbatim>\<open>Error\<close>, with its message.\<close>

datatype exn = Error jsstring

text \<open>
  What an operation that takes \<^verbatim>\<open>#clientLock\<close> has done when it settles or stalls:
  \<open>Waiting\<close> is a call whose \<^verbatim>\<open>acquire()\<close> has not been granted, \<open>Threw\<close> a rejected
  promise, \<open>Done\<close> a fulfilled one.
\<close>

datatype outcome = Waiting | Threw exn | Done

text \<open>The transport states of \<^verbatim>\<open>vscode-languageclient\<close>.\<close>

datatype client_state = Stopped | Starting | Running

text \<open>Everything the supervisor does to the outside, in the order it does it.\<close>

datatype effect =
    ConsoleError exn
  | KillallDlv
  | ShowErrorMessage jsstring
  | ShowWarningMessage
  | ShowInformationMessage jsstring
  | EmulatorStateChanged
  | WatchFlowConfiguration
  | SleepSynchronously nat
  | ClientStop

text \<open>The arguments \<^verbatim>\<open>new LanguageClient(...)\<close> is built from.\<close>

record language_client =
  command :: jsstring
  args :: "jsstring list"
  initConfigPath :: jsstring
  initNumberOfAccounts :: jsstring
  initAccessCheckMode :: jsstring

text \<open>
  The two settings \<^verbatim>\<open>startClient\<close> reads. \<open>numAccounts\<close> is a JavaScript number of which
  the supervisor uses nothing but the text the template literal \<^verbatim>\<open>`${numberOfAccounts}`\<close>
  makes of it; the field holds that text.
\<close>

record workspace_settings =
  numAccounts :: jsstring
  settingsAccessCheckMode :: jsstring

record ls_state =
  client :: "language_client option"
  clientLock :: bool
  running :: bool
  initializedClient :: bool
  emulatorConnected :: bool
  flowCommand :: jsstring
  effects :: "effect list"

text \<open>
  The result of \<^verbatim>\<open>awaitToJs.to(portScanner.checkPortStatus(port, host))\<close>: an error, or the
  port's status.
\<close>

datatype probe = ProbeError exn | ProbeStatus jsstring

text \<open>
  What the collaborators answer during one \<^verbatim>\<open>startClient\<close>: the port probe,
  \<^verbatim>\<open>Config.getConfigPath()\<close> (a promise, which may reject),
  \<^verbatim>\<open>Settings.getWorkspaceSettings()\<close> (which may throw; both calls read the same
  workspace configuration), the state changes the transport reports while it starts, and
  whether \<^verbatim>\<open>client.start()\<close> resolves or rejects.
\<close>

record start_env =
  probed :: probe
  configPath :: "exn + jsstring"
  settings :: "exn + workspace_settings"
  startEvents :: "client_state list"
  startResult :: "exn + unit"

definition emit :: "effect \<Rightarrow> ls_state \<Rightarrow> ls_state" where
  "emit e st = st\<lparr>effects := effects st @ [e]\<rparr>"

text \<open>\<^verbatim>\<open>emulatorExists\<close>: a failed probe is logged and reads as unreachable.\<close>

definition emulatorExists :: "probe \<Rightarrow> ls_state \<Rightarrow> bool \<times> ls_state" where
  "emulatorExists p st =
     (case p of
        ProbeError err \<Rightarrow> (False, emit (ConsoleError err) st)
      | ProbeStatus status \<Rightarrow> (status = js ''open'', st))"

text \<open>The listener registered with \<^verbatim>\<open>client.onDidChangeState\<close>.\<close>

definition onDidChangeState :: "client_state \<Rightarrow> ls_state \<Rightarrow> ls_state" where
  "onDidChangeState newState st =
     (let st1 = st\<lparr>running := (newState = Running)\<rparr>;
          st2 = (if initializedClient st1 \<and> \<not> running st1
                 then emit (SleepSynchronously (1000 * 5)) st1 else st1)
      in emit EmulatorStateChanged st2)"

definition newLanguageClient ::
  "jsstring \<Rightarrow> bool \<Rightarrow> jsstring \<Rightarrow> workspace_settings \<Rightarrow> language_client" where
  "newLanguageClient cmd enableFlow cp ws =
     \<lparr>command = cmd,
      args = [js ''cadence'', js ''language-server'',
              js ''--enable-flow-client='' @ show_bool enableFlow],
      initConfigPath = cp,
      initNumberOfAccounts = numAccounts ws,
      initAccessCheckMode = settingsAccessCheckMode ws\<rparr>"

definition errorMessage :: "exn \<Rightarrow> jsstring" where
  "errorMessage e = (case e of Error m \<Rightarrow> m)"

text \<open>
  \<^verbatim>\<open>startClient\<close>. The lock is taken on the first line and released on the last; the
  function has no \<^verbatim>\<open>try\<close>, so an exception of \<^verbatim>\<open>getConfigPath\<close> or
  \<^verbatim>\<open>getWorkspaceSettings\<close> leaves it where it is thrown. A rejection of
  \<^verbatim>\<open>client.start()\<close> is caught by the \<^verbatim>\<open>.catch\<close> of the source.
\<close>

definition startClient :: "bool option \<Rightarrow> start_env \<Rightarrow> ls_state \<Rightarrow> outcome \<times> ls_state" where
  "startClient enableFlowArg env st =
     (if clientLock st then (Waiting, st)
      else
        let st1 = st\<lparr>clientLock := True\<rparr>;
            (enableFlow, st2) =
              (case enableFlowArg of
                 None \<Rightarrow>
                   (let (found, s) = emulatorExists (probed env) st1
                    in (found, s\<lparr>emulatorConnected := found\<rparr>))
               | Some b \<Rightarrow> (b, st1));
            st3 = st2\<lparr>initializedClient := False\<rparr>
        in case configPath env of
             Inl err \<Rightarrow> (Threw err, st3)
           | Inr cp \<Rightarrow>
               (case settings env of
                  Inl err \<Rightarrow> (Threw err, st3)
                | Inr ws \<Rightarrow>
                    let st4 = (if flowCommand st3 \<noteq> js ''flow'' then emit KillallDlv st3 else st3);
                        st5 = st4\<lparr>client := Some (newLanguageClient (flowCommand st4) enableFlow cp ws)\<rparr>;
                        st6 = fold onDidChangeState (startEvents env) st5;
                        st7 = (case startResult env of
                                 Inr u \<Rightarrow> emit WatchFlowConfiguration (emit EmulatorStateChanged st6)
                               | Inl err \<Rightarrow>
                                   emit (ShowErrorMessage
                                     (js ''Cadence language server failed to start: '' @ errorMessage err)) st6);
                        st8 = st7\<lparr>initializedClient := True\<rparr>;
                        st9 = (if \<not> enableFlow then emit ShowWarningMessage st8
                               else emit (ShowInformationMessage (js ''Flow Emulator Connected'')) st8)
                    in (Done, st9\<lparr>clientLock := False\<rparr>)))"

text \<open>
  \<^verbatim>\<open>stopClient\<close>: a failing \<^verbatim>\<open>client.stop()\<close> is swallowed, so nothing of its result
  is left to model.
\<close>

definition stopClient :: "ls_state \<Rightarrow> outcome \<times> ls_state" where
  "stopClient st =
     (if clientLock st then (Waiting, st)
      else
        let st1 = st\<lparr>clientLock := True\<rparr>;
            st2 = (case client st1 of None \<Rightarrow> st1 | Some c \<Rightarrow> emit ClientStop st1);
            st3 = st2\<lparr>client := None\<rparr>;
            st4 = emit EmulatorStateChanged st3
        in (Done, st4\<lparr>clientLock := False\<rparr>))"

text \<open>
  \<^verbatim>\<open>restart\<close> issues the two calls without awaiting either; the mutex grants them in the
  order they were made.
\<close>

datatype supervisor_call = StopClient | StartClient "bool option"

definition restart :: "bool \<Rightarrow> supervisor_call list" where
  "restart enableFlow = [StopClient, StartClient (Some enableFlow)]"

text \<open>
  One run of the callback \<^verbatim>\<open>watchEmulator\<close> hands to \<^verbatim>\<open>setInterval\<close>. The second
  component lists the flags of the \<^verbatim>\<open>this.restart(...)\<close> calls the run makes.
\<close>

definition watchEmulator_tick :: "probe \<Rightarrow> ls_state \<Rightarrow> outcome \<times> ls_state \<times> bool list" where
  "watchEmulator_tick p st =
     (if clientLock st then (Waiting, st, [])
      else
        let st1 = st\<lparr>clientLock := True\<rparr>;
            (emulatorFound, st2) = emulatorExists p st1
        in if emulatorConnected st2 = emulatorFound
           then (Done, st2\<lparr>clientLock := False\<rparr>, [])
           else
             let st3 = st2\<lparr>emulatorConnected := emulatorFound\<rparr>;
                 st4 = st3\<lparr>clientLock := False\<rparr>
             in (Done, st4, [emulatorFound]))"

text \<open>Consecutive runs, each on the state the one before left; the restarts are collected.\<close>

fun watchEmulator_ticks :: "probe list \<Rightarrow> ls_state \<Rightarrow> ls_state \<times> bool list" where
  "watchEmulator_ticks [] st = (st, [])"
| "watchEmulator_ticks (p # ps) st =
     (case watchEmulator_tick p st of
        (out, st', rs) \<Rightarrow>
          (case watchEmulator_ticks ps st' of (st'', rs') \<Rightarrow> (st'', rs @ rs')))"

text \<open>
  The delay \<^verbatim>\<open>watchEmulator\<close> passes to \<^verbatim>\<open>setInterval\<close>, in milliseconds, and the time
  of the \<open>k\<close>-th run after the call (\<^verbatim>\<open>setInterval\<close> fires first after one delay).
\<close>

definition watchEmulator_seconds :: nat where
  "watchEmulator_seconds = 3"

definition watchEmulator_delay :: nat where
  "watchEmulator_delay = 1000 * watchEmulator_seconds"

definition watchEmulator_fires_at :: "nat \<Rightarrow> nat" where
  "watchEmulator_fires_at k = (Suc k) * watchEmulator_delay"

text \<open>The fields of a \<^verbatim>\<open>LanguageServerAPI\<close> as its declaration initialises them.\<close>

definition LanguageServerAPI_fields :: "jsstring \<Rightarrow> ls_state" where
  "LanguageServerAPI_fields cmd =
     \<lparr>client = None, clientLock = False, running = False, initializedClient = False,
      emulatorConnected = False, flowCommand = cmd, effects = []\<rparr>"


section \<open>Character classes of ECMAScript regular expressions\<close>

text \<open>
  Line terminators are LF, CR, U+2028 and U+2029. \<^verbatim>\<open>\s\<close> and \<^verbatim>\<open>trim()\<close> take the white
  space of the language (TAB, VT, FF, SP, NBSP, ZWNBSP and the space separators) together
  with the line terminators; \<^verbatim>\<open>.\<close> takes everything but a line terminator.
\<close>

definition is_line_terminator :: "nat \<Rightarrow> bool" where
  "is_line_terminator c = (c = 10 \<or> c = 13 \<or> c = 8232 \<or> c = 8233)"

definition is_white_space :: "nat \<Rightarrow> bool" where
  "is_white_space c =
     (c = 9 \<or> c = 11 \<or> c = 12 \<or> c = 32 \<or> c = 160 \<or> c = 5760 \<or> (8192 \<le> c \<and> c \<le> 8202)
      \<or> c = 8239 \<or> c = 8287 \<or> c = 12288 \<or> c = 65279)"

definition is_space :: "nat \<Rightarrow> bool" where
  "is_space c = (is_white_space c \<or> is_line_terminator c)"

definition is_dot :: "nat \<Rightarrow> bool" where
  "is_dot c = (\<not> is_line_terminator c)"

definition is_digit :: "nat \<Rightarrow> bool" where
  "is_digit c = (48 \<le> c \<and> c \<le> 57)"

definition is_letterdash :: "nat \<Rightarrow> bool" where
  "is_letterdash c = ((65 \<le> c \<and> c \<le> 90) \<or> (97 \<le> c \<and> c \<le> 122) \<or> c = 45)"

definition is_letterdashnumber :: "nat \<Rightarrow> bool" where
  "is_letterdashnumber c = (is_letterdash c \<or> is_digit c)"

text \<open>
  A greedy quantifier over a character class: the longest run first, then one character
  less at a time, until the rest of the pattern (the continuation, which gets the text the
  quantifier took and the text after it) matches.
\<close>

fun greedy_from :: "nat \<Rightarrow> (jsstring \<Rightarrow> jsstring \<Rightarrow> 'a option) \<Rightarrow> jsstring \<Rightarrow> 'a option" where
  "greedy_from 0 k s = k [] s"
| "greedy_from (Suc n) k s =
     (case k (take (Suc n) s) (drop (Suc n) s) of
        Some r \<Rightarrow> Some r
      | None \<Rightarrow> greedy_from n k s)"

definition greedy :: "(nat \<Rightarrow> bool) \<Rightarrow> (jsstring \<Rightarrow> jsstring \<Rightarrow> 'a option) \<Rightarrow> jsstring \<Rightarrow> 'a option" where
  "greedy cls k s = greedy_from (length (takeWhile cls s)) k s"

text \<open>\<^verbatim>\<open>$\<close> under the \<^verbatim>\<open>m\<close> flag: the end of the input, or a line terminator next.\<close>

definition at_line_end :: "jsstring \<Rightarrow> bool" where
  "at_line_end s = (case s of [] \<Rightarrow> True | c # cs \<Rightarrow> is_line_terminator c)"

definition next_is :: "(nat \<Rightarrow> bool) \<Rightarrow> jsstring \<Rightarrow> bool" where
  "next_is cls s = (case s of [] \<Rightarrow> False | c # cs \<Rightarrow> cls c)"

text \<open>\<^verbatim>\<open>String.prototype.match\<close> with a pattern that is not global: the leftmost match.\<close>

fun regexp_search :: "(jsstring \<Rightarrow> 'a option) \<Rightarrow> jsstring \<Rightarrow> 'a option" where
  "regexp_search m [] = m []"
| "regexp_search m (c # cs) =
     (case m (c # cs) of Some r \<Rightarrow> Some r | None \<Rightarrow> regexp_search m cs)"


section \<open>The version pattern (flow-cli/cli-versions-provider.ts)\<close>

text \<open>
  \<^verbatim>\<open>LEGACY_VERSION_REGEXP = /Version:\s*v(.*)(?:\s|$)/m\<close>, tried at the head of \<open>s\<close>; the
  result is capture group 1.
\<close>

definition LEGACY_VERSION_REGEXP_here :: "jsstring \<Rightarrow> jsstring option" where
  "LEGACY_VERSION_REGEXP_here s =
     (if take 8 s = js ''Version:''
      then greedy is_space
             (\<lambda>spaces r1.
                case r1 of
                  [] \<Rightarrow> None
                | c # r2 \<Rightarrow>
                    if c = 118
                    then greedy is_dot
                           (\<lambda>group1 r3.
                              if next_is is_space r3 \<or> at_line_end r3 then Some group1 else None)
                           r2
                    else None)
             (drop 8 s)
      else None)"

definition LEGACY_VERSION_REGEXP :: "jsstring \<Rightarrow> jsstring option" where
  "LEGACY_VERSION_REGEXP s = regexp_search LEGACY_VERSION_REGEXP_here s"

text \<open>
  The pattern as the specification words it, \<^verbatim>\<open>Version:\s*v(<token>)\<close>: somewhere in the
  input stands \<^verbatim>\<open>Version:\<close>, then white space, then \<^verbatim>\<open>v\<close>. It is compared with
  \<open>LEGACY_VERSION_REGEXP\<close> below.
\<close>

definition version_pattern_matches :: "jsstring \<Rightarrow> bool" where
  "version_pattern_matches s =
     (\<exists>before spaces rest.
        s = before @ js ''Version:'' @ spaces @ 118 # rest \<and> list_all is_space spaces)"


section \<open>The semver package, as the provider uses it\<close>

text \<open>
  \<^verbatim>\<open>semver.clean\<close> and \<^verbatim>\<open>semver.parse\<close> belong to the npm package \<^verbatim>\<open>semver\<close> (version 7,
  strict mode: the provider passes no options). The package is a dependency, not a file of
  the repository; the definitions below follow its \<^verbatim>\<open>classes/semver.js\<close>,
  \<^verbatim>\<open>functions/parse.js\<close>, \<^verbatim>\<open>functions/clean.js\<close> and the pattern \<^verbatim>\<open>FULL\<close> of
  \<^verbatim>\<open>internal/re.js\<close>:
  \<^verbatim>\<open>^v?(0|[1-9]\d*)\.(0|[1-9]\d*)\.(0|[1-9]\d*)(?:-(PRE(?:\.PRE)*))?(?:\+(BLD(?:\.BLD)*))?$\<close>
  with \<^verbatim>\<open>PRE = 0|[1-9]\d*|\d*[a-zA-Z-][a-zA-Z0-9-]*\<close> and \<^verbatim>\<open>BLD = [a-zA-Z0-9-]+\<close>.
\<close>

definition MAX_LENGTH :: nat where
  "MAX_LENGTH = 256"

definition MAX_SAFE_INTEGER :: nat where
  "MAX_SAFE_INTEGER = 9007199254740991"

text \<open>\<^verbatim>\<open>String.prototype.trim\<close>, and \<^verbatim>\<open>replace(/^[=v]+/, '')\<close>.\<close>

definition trim :: "jsstring \<Rightarrow> jsstring" where
  "trim s = rev (dropWhile is_space (rev (dropWhile is_space s)))"

definition strip_eq_v :: "jsstring \<Rightarrow> jsstring" where
  "strip_eq_v s = dropWhile (\<lambda>c. c = 61 \<or> c = 118) s"

text \<open>\<^verbatim>\<open>split(d)\<close> and \<^verbatim>\<open>join(d)\<close> for a one-character separator.\<close>

fun split_on :: "nat \<Rightarrow> jsstring \<Rightarrow> jsstring list" where
  "split_on d [] = [] # []"
| "split_on d (c # cs) =
     (if c = d then [] # split_on d cs
      else (case split_on d cs of [] \<Rightarrow> [c] # [] | p # ps \<Rightarrow> (c # p) # ps))"

fun join_with :: "nat \<Rightarrow> jsstring list \<Rightarrow> jsstring" where
  "join_with d [] = []"
| "join_with d [x] = x"
| "join_with d (x # y # ys) = x @ d # join_with d (y # ys)"

text \<open>
  The text before the first \<open>d\<close>, and the text after it when there is one: how an optional
  group that a fixed character opens divides the input.
\<close>

definition break_at :: "nat \<Rightarrow> jsstring \<Rightarrow> jsstring \<times> jsstring option" where
  "break_at d s =
     (takeWhile (\<lambda>c. c \<noteq> d) s,
      case dropWhile (\<lambda>c. c \<noteq> d) s of [] \<Rightarrow> None | c # r \<Rightarrow> Some r)"

text \<open>The identifiers of the pattern.\<close>

definition numeric_identifier :: "jsstring \<Rightarrow> bool" where
  "numeric_identifier s =
     (case s of [] \<Rightarrow> False | c # cs \<Rightarrow> list_all is_digit s \<and> (if c = 48 then cs = [] else True))"

definition nonnumeric_identifier :: "jsstring \<Rightarrow> bool" where
  "nonnumeric_identifier s =
     (case dropWhile is_digit s of
        [] \<Rightarrow> False
      | c # cs \<Rightarrow> is_letterdash c \<and> list_all is_letterdashnumber cs)"

definition prerelease_identifier :: "jsstring \<Rightarrow> bool" where
  "prerelease_identifier s = (numeric_identifier s \<or> nonnumeric_identifier s)"

definition build_identifier :: "jsstring \<Rightarrow> bool" where
  "build_identifier s = (s \<noteq> [] \<and> list_all is_letterdashnumber s)"

text \<open>
  The pattern \<^verbatim>\<open>FULL\<close> on a whole string: the capture groups 1 to 5 of a match. The
  optional \<^verbatim>\<open>v\<close> is taken when it is there (without it the first group cannot start);
  the build part starts at the first \<^verbatim>\<open>+\<close> and the prerelease part at the first \<^verbatim>\<open>-\<close>
  before it, since no earlier group can hold either character.
\<close>

definition FULL ::
  "jsstring \<Rightarrow> (jsstring \<times> jsstring \<times> jsstring \<times> jsstring option \<times> jsstring option) option" where
  "FULL s =
     (let s1 = (case s of [] \<Rightarrow> s | c # r \<Rightarrow> if c = 118 then r else s);
          (s2, m5) = break_at 43 s1;
          (main, m4) = break_at 45 s2
      in case split_on 46 main of
           [m1, m2, m3] \<Rightarrow>
             if numeric_identifier m1 \<and> numeric_identifier m2 \<and> numeric_identifier m3
                \<and> (case m4 of None \<Rightarrow> True
                    | Some p \<Rightarrow> list_all prerelease_identifier (split_on 46 p))
                \<and> (case m5 of None \<Rightarrow> True
                    | Some b \<Rightarrow> list_all build_identifier (split_on 46 b))
             then Some (m1, m2, m3, m4, m5)
             else None
         | _ \<Rightarrow> None)"

text \<open>
  \<^verbatim>\<open>+m[i]\<close> on a string of digits. The double it gives is compared with
  \<^verbatim>\<open>MAX_SAFE_INTEGER\<close> only; rounding to a double is monotone and fixes every integer up
  to \<open>2^53\<close>, so the comparisons come out as they do on the exact number.
\<close>

definition to_number :: "jsstring \<Rightarrow> nat" where
  "to_number s = foldl (\<lambda>n c. 10 * n + (c - 48)) 0 s"

datatype prerelease_id = PNum nat | PStr jsstring

definition prerelease_of :: "jsstring \<Rightarrow> prerelease_id" where
  "prerelease_of ident =
     (if ident \<noteq> [] \<and> list_all is_digit ident
      then (let num = to_number ident in if num < MAX_SAFE_INTEGER then PNum num else PStr ident)
      else PStr ident)"

definition show_prerelease_id :: "prerelease_id \<Rightarrow> jsstring" where
  "show_prerelease_id p = (case p of PNum n \<Rightarrow> show_nat n | PStr s \<Rightarrow> s)"

record SemVer =
  raw :: jsstring
  major :: nat
  minor :: nat
  patch :: nat
  prerelease :: "prerelease_id list"
  build :: "jsstring list"
  version :: jsstring

text \<open>\<^verbatim>\<open>SemVer.format()\<close>.\<close>

definition format :: "nat \<Rightarrow> nat \<Rightarrow> nat \<Rightarrow> prerelease_id list \<Rightarrow> jsstring" where
  "format ma mi pa pre =
     show_nat ma @ 46 # show_nat mi @ 46 # show_nat pa
     @ (if pre = [] then [] else 45 # join_with 46 (map show_prerelease_id pre))"

text \<open>
  \<^verbatim>\<open>semver.parse(version)\<close> for a string: the constructor \<^verbatim>\<open>new SemVer(version)\<close>, with
  each \<^verbatim>\<open>TypeError\<close> it throws caught and turned into \<^verbatim>\<open>null\<close>.
\<close>

definition semver_parse :: "jsstring \<Rightarrow> SemVer option" where
  "semver_parse v =
     (if length v > MAX_LENGTH then None
      else
        case FULL (trim v) of
          None \<Rightarrow> None
        | Some (m1, m2, m3, m4, m5) \<Rightarrow>
            let ma = to_number m1; mi = to_number m2; pa = to_number m3
            in if ma > MAX_SAFE_INTEGER then None
               else if mi > MAX_SAFE_INTEGER then None
               else if pa > MAX_SAFE_INTEGER then None
               else
                 let pre = (case m4 of None \<Rightarrow> [] | Some p \<Rightarrow> map prerelease_of (split_on 46 p));
                     bld = (case m5 of None \<Rightarrow> [] | Some b \<Rightarrow> split_on 46 b)
                 in Some \<lparr>raw = v, major = ma, minor = mi, patch = pa, prerelease = pre,
                          build = bld, version = format ma mi pa pre\<rparr>)"

text \<open>\<^verbatim>\<open>semver.clean\<close> and \<^verbatim>\<open>semver.valid\<close>.\<close>

definition semver_clean :: "jsstring \<Rightarrow> jsstring option" where
  "semver_clean v =
     (case semver_parse (strip_eq_v (trim v)) of None \<Rightarrow> None | Some s \<Rightarrow> Some (version s))"

definition semver_valid :: "jsstring \<Rightarrow> jsstring option" where
  "semver_valid v = (case semver_parse v of None \<Rightarrow> None | Some s \<Rightarrow> Some (version s))"

text \<open>
  The text of the groups 1 to 4 of a match of \<^verbatim>\<open>FULL\<close>, put together again as the
  pattern reads them. The proofs show that \<^verbatim>\<open>format()\<close> writes this text.
\<close>

definition version_text :: "jsstring \<Rightarrow> jsstring \<Rightarrow> jsstring \<Rightarrow> jsstring option \<Rightarrow> jsstring" where
  "version_text m1 m2 m3 m4 =
     m1 @ 46 # m2 @ 46 # m3 @ (case m4 of None \<Rightarrow> [] | Some p \<Rightarrow> 45 # p)"


section \<open>Version strings of the Flow CLI (flow-cli/cli-versions-provider.ts)\<close>

text \<open>\<^verbatim>\<open>parseFlowCliVersion\<close>.\<close>

definition parseFlowCliVersion :: "jsstring \<Rightarrow> jsstring option" where
  "parseFlowCliVersion buffer =
     (case LEGACY_VERSION_REGEXP buffer of
        None \<Rightarrow> None
      | Some rawMatch \<Rightarrow> semver_clean rawMatch)"

record CliBinary =
  cliCommand :: jsstring
  cliVersion :: SemVer

text \<open>\<^verbatim>\<open>cliBinaryFromVersion\<close>.\<close>

definition cliBinaryFromVersion :: "jsstring \<Rightarrow> jsstring \<Rightarrow> CliBinary option" where
  "cliBinaryFromVersion bin versionStr =
     (case semver_parse versionStr of
        None \<Rightarrow> None
      | Some v \<Rightarrow> Some \<lparr>cliCommand = bin, cliVersion = v\<rparr>)"


section \<open>Resolving the version of a binary (flow-cli/cli-versions-provider.ts)\<close>

text \<open>
  \<^verbatim>\<open>execDefault\<close> runs a shell command: it throws, or gives the two output streams. The
  resolver gets it as a function from the command line to that result.
\<close>

record exec_output =
  stdout :: jsstring
  stderr :: jsstring

type_synonym exec = "jsstring \<Rightarrow> exn + exec_output"

text \<open>
  \<^verbatim>\<open>JSON.parse\<close> is the language's: it throws a \<^verbatim>\<open>SyntaxError\<close> or gives a value. The
  resolver gets it as a function too. An object holds its own properties, each name once.
\<close>

datatype json =
    JNull
  | JBool bool
  | JNumber int
  | JString jsstring
  | JArray "json list"
  | JObject "(jsstring \<times> json) list"

type_synonym json_parse = "jsstring \<Rightarrow> exn + json"

text \<open>
  \<^verbatim>\<open>versionInfo.version\<close>: reading a property of \<^verbatim>\<open>null\<close> throws a \<^verbatim>\<open>TypeError\<close>; an
  object gives its property or \<^verbatim>\<open>undefined\<close> (\<open>None\<close>); no other value has a property of
  that name.
\<close>

definition get_version :: "json \<Rightarrow> exn + json option" where
  "get_version v =
     (case v of
        JNull \<Rightarrow> Inl (Error (js ''Cannot read properties of null''))
      | JObject props \<Rightarrow> Inr (map_of props (js ''version''))
      | _ \<Rightarrow> Inr None)"

text \<open>
  \<^verbatim>\<open>cliBinaryFromVersion\<close> on what \<^verbatim>\<open>versionInfo.version\<close> holds at run time:
  \<^verbatim>\<open>semver.parse\<close> answers \<^verbatim>\<open>null\<close> to everything that is not a string.
\<close>

definition cliBinaryFromVersion_any :: "jsstring \<Rightarrow> json option \<Rightarrow> CliBinary option" where
  "cliBinaryFromVersion_any bin v =
     (case v of Some (JString versionStr) \<Rightarrow> cliBinaryFromVersion bin versionStr | _ \<Rightarrow> None)"

definition CHECK_FLOW_CLI_CMD :: "jsstring \<Rightarrow> jsstring" where
  "CHECK_FLOW_CLI_CMD flowCmd = flowCmd @ js '' version --output=json''"

definition CHECK_FLOW_CLI_CMD_NO_JSON :: "jsstring \<Rightarrow> jsstring" where
  "CHECK_FLOW_CLI_CMD_NO_JSON flowCmd = flowCmd @ js '' version''"

text \<open>
  The functions below return what the promise settles to (\<open>Inl\<close> a rejection) together
  with the command lines they ran, in order.
\<close>

text \<open>The \<^verbatim>\<open>try\<close> block of \<^verbatim>\<open>#fetchBinaryInformationOld\<close>.\<close>

definition fetchBinaryInformationOld_try :: "exec \<Rightarrow> jsstring \<Rightarrow> exn + CliBinary option" where
  "fetchBinaryInformationOld_try exec bin =
     (case exec (CHECK_FLOW_CLI_CMD_NO_JSON bin) of
        Inl err \<Rightarrow> Inl err
      | Inr output \<Rightarrow>
          (let versionStr = parseFlowCliVersion (stdout output);
               versionStr = (if versionStr = None then parseFlowCliVersion (stderr output)
                             else versionStr)
           in case versionStr of
                None \<Rightarrow> Inr None
              | Some v \<Rightarrow> Inr (cliBinaryFromVersion bin v)))"

text \<open>\<^verbatim>\<open>#fetchBinaryInformationOld\<close>: the \<^verbatim>\<open>catch\<close> answers \<^verbatim>\<open>null\<close>.\<close>

definition fetchBinaryInformationOld ::
  "exec \<Rightarrow> jsstring \<Rightarrow> (exn + CliBinary option) \<times> jsstring list" where
  "fetchBinaryInformationOld exec bin =
     (case fetchBinaryInformationOld_try exec bin of
        Inl err \<Rightarrow> (Inr None, [CHECK_FLOW_CLI_CMD_NO_JSON bin])
      | Inr r \<Rightarrow> (Inr r, [CHECK_FLOW_CLI_CMD_NO_JSON bin]))"

text \<open>The \<^verbatim>\<open>try\<close> block of \<^verbatim>\<open>#fetchBinaryInformation\<close>.\<close>

definition fetchBinaryInformation_try ::
  "exec \<Rightarrow> json_parse \<Rightarrow> jsstring \<Rightarrow> exn + CliBinary option" where
  "fetchBinaryInformation_try exec JSON_parse bin =
     (case exec (CHECK_FLOW_CLI_CMD bin) of
        Inl err \<Rightarrow> Inl err
      | Inr output \<Rightarrow>
          (case JSON_parse (stdout output) of
             Inl err \<Rightarrow> Inl err
           | Inr versionInfo \<Rightarrow>
               (case get_version versionInfo of
                  Inl err \<Rightarrow> Inl err
                | Inr v \<Rightarrow> Inr (cliBinaryFromVersion_any bin v))))"

text \<open>\<^verbatim>\<open>#fetchBinaryInformation\<close>: the \<^verbatim>\<open>catch\<close> runs the old method.\<close>

definition fetchBinaryInformation ::
  "exec \<Rightarrow> json_parse \<Rightarrow> jsstring \<Rightarrow> (exn + CliBinary option) \<times> jsstring list" where
  "fetchBinaryInformation exec JSON_parse bin =
     (case fetchBinaryInformation_try exec JSON_parse bin of
        Inr r \<Rightarrow> (Inr r, [CHECK_FLOW_CLI_CMD bin])
      | Inl err \<Rightarrow>
          (case fetchBinaryInformationOld exec bin of
             (r, cmds) \<Rightarrow> (r, CHECK_FLOW_CLI_CMD bin # cmds)))"


section \<open>The reactive value cache (utils/state-cache.ts)\<close>

text \<open>
  Modelled from the spec: the class \<^verbatim>\<open>StateCache\<close> of \<^verbatim>\<open>utils/state-cache.ts\<close>, which the
  provider imports and whose source is missing. The specification
  (sections 3 and 4.1) gives an entry a value, a validity flag, an in-flight marker and
  subscribers, and says what \<^verbatim>\<open>getValue\<close>, \<^verbatim>\<open>invalidate\<close>, \<^verbatim>\<open>subscribe\<close> and
  \<^verbatim>\<open>dispose\<close> do. The entry below adds the flag "one more recomputation is owed", two
  counters (fetch operations begun and settled) and the list of the callbacks invoked so far,
  so that what the specification promises about fetches can be stated.
\<close>

text \<open>
  Modelled from the spec: a subscriber callback. The provider subscribes one kind only, the
  one that invalidates the root entry.
\<close>

datatype callback = InvalidateRootCache

text \<open>
  Modelled from the spec: the entry of section 3 (value, validity flag, in-flight marker,
  subscribers) with the additions named above.
\<close>

record 'a StateCache =
  cached :: "'a option"
  fresh :: bool
  inFlight :: bool
  owed :: bool
  subscribers :: "callback list"
  disposed :: bool
  begun :: nat
  settled :: nat
  notified :: "callback list"

text \<open>
  Modelled from the spec: a new entry is stale, holds no value and computes nothing until it
  is asked ("lazily computed").
\<close>

definition new_StateCache :: "'a StateCache" where
  "new_StateCache =
     \<lparr>cached = None, fresh = False, inFlight = False, owed = False, subscribers = [],
      disposed = False, begun = 0, settled = 0, notified = []\<rparr>"

text \<open>Modelled from the spec: the number of fetch operations outstanding.\<close>

definition outstanding :: "'a StateCache \<Rightarrow> nat" where
  "outstanding c = begun c - settled c"

text \<open>Modelled from the spec: a fetch operation begins.\<close>

definition begin_fetch :: "'a StateCache \<Rightarrow> 'a StateCache" where
  "begin_fetch c = c\<lparr>inFlight := True, begun := begun c + 1\<rparr>"

text \<open>
  Modelled from the spec: what a call of \<^verbatim>\<open>getValue()\<close> does to the entry. A fresh entry
  answers at once; a stale one with no fetch outstanding begins one; with a fetch outstanding
  the caller shares it.
\<close>

definition StateCache_getValue :: "'a StateCache \<Rightarrow> 'a StateCache" where
  "StateCache_getValue c =
     (if fresh c then c else if inFlight c then c else begin_fetch c)"

text \<open>
  Modelled from the spec: \<^verbatim>\<open>invalidate()\<close> marks the entry stale and, while a fetch is
  outstanding, records that one more recomputation is owed.
\<close>

definition StateCache_invalidate :: "'a StateCache \<Rightarrow> 'a StateCache" where
  "StateCache_invalidate c =
     (let c1 = c\<lparr>fresh := False\<rparr> in if inFlight c1 then c1\<lparr>owed := True\<rparr> else c1)"

text \<open>
  Modelled from the spec: the outstanding fetch settles with \<open>r\<close>. An owed recomputation
  starts now, once; otherwise a result is committed and the subscribers are called, and a
  failure leaves the entry stale. The specification does not say whether the result of a
  fetch that was invalidated on its way is committed; here it is dropped.
\<close>

definition StateCache_settle :: "exn + 'a \<Rightarrow> 'a StateCache \<Rightarrow> 'a StateCache" where
  "StateCache_settle r c =
     (if \<not> inFlight c then c
      else
        let c1 = c\<lparr>inFlight := False, settled := settled c + 1\<rparr>
        in if owed c1 then begin_fetch (c1\<lparr>owed := False\<rparr>)
           else (case r of
                   Inl err \<Rightarrow> c1
                 | Inr v \<Rightarrow> c1\<lparr>cached := Some v, fresh := True,
                              notified := notified c1 @ subscribers c1\<rparr>))"

text \<open>Modelled from the spec: \<^verbatim>\<open>subscribe\<close> registers a callback.\<close>

definition StateCache_subscribe :: "callback \<Rightarrow> 'a StateCache \<Rightarrow> 'a StateCache" where
  "StateCache_subscribe cb c =
     (if disposed c then c else c\<lparr>subscribers := subscribers c @ [cb]\<rparr>)"

text \<open>
  Modelled from the spec: \<^verbatim>\<open>dispose\<close> releases all subscribers, and a disposed entry
  takes no new ones.
\<close>

definition StateCache_dispose :: "'a StateCache \<Rightarrow> 'a StateCache" where
  "StateCache_dispose c = c\<lparr>subscribers := [], disposed := True\<rparr>"

text \<open>
  Modelled from the spec: what can happen to an entry: the four operations of section 4.1 and
  the settling of its fetch.
\<close>

datatype 'a cache_event =
    GetValue
  | Invalidate
  | Settle "exn + 'a"
  | Subscribe callback
  | Dispose

text \<open>Modelled from the spec: one event applied to an entry.\<close>

fun StateCache_step :: "'a cache_event \<Rightarrow> 'a StateCache \<Rightarrow> 'a StateCache" where
  "StateCache_step GetValue c = StateCache_getValue c"
| "StateCache_step Invalidate c = StateCache_invalidate c"
| "StateCache_step (Settle r) c = StateCache_settle r c"
| "StateCache_step (Subscribe cb) c = StateCache_subscribe cb c"
| "StateCache_step Dispose c = StateCache_dispose c"

text \<open>Modelled from the spec: a history of such events, applied in order.\<close>

definition StateCache_run :: "'a cache_event list \<Rightarrow> 'a StateCache \<Rightarrow> 'a StateCache" where
  "StateCache_run evs c = fold StateCache_step evs c"

text \<open>
  Modelled from the spec: \<^verbatim>\<open>await cache.getValue()\<close> with nothing else happening to the
  entry meanwhile. \<open>r\<close> is what the fetch in question settles to: the fetcher's result when
  the call begins the fetch, the result of the fetch already on its way when the call shares
  one.
\<close>

definition StateCache_await :: "exn + 'a \<Rightarrow> 'a StateCache \<Rightarrow> (exn + 'a) \<times> 'a StateCache" where
  "StateCache_await r c =
     (case (fresh c, cached c) of
        (True, Some v) \<Rightarrow> (Inr v, c)
      | _ \<Rightarrow> (r, StateCache_settle r (StateCache_getValue c)))"


section \<open>The registry of binaries (flow-cli/cli-versions-provider.ts)\<close>

text \<open>
  \<^verbatim>\<open>#caches\<close> is a plain object. The list holds its own properties in the order they were
  created. \<^verbatim>\<open>this.#caches[command]\<close> also finds what every object inherits from
  \<^verbatim>\<open>Object.prototype\<close>.
\<close>

definition Object_prototype_members :: "jsstring list" where
  "Object_prototype_members =
     map js [''constructor'', ''hasOwnProperty'', ''isPrototypeOf'', ''propertyIsEnumerable'',
             ''toLocaleString'', ''toString'', ''valueOf'', ''__proto__'',
             ''__defineGetter__'', ''__defineSetter__'', ''__lookupGetter__'',
             ''__lookupSetter__'']"

type_synonym leaf_cache = "CliBinary option StateCache"
type_synonym root_cache = "CliBinary list StateCache"

record CliVersionsProvider =
  rootCache :: "root_cache option"
  caches :: "(jsstring \<times> leaf_cache) list"

definition KNOWN_FLOW_COMMANDS :: "jsstring list" where
  "KNOWN_FLOW_COMMANDS = [js ''flow'']"

text \<open>\<^verbatim>\<open>this.#caches[command] != null\<close>.\<close>

definition caches_member :: "(jsstring \<times> leaf_cache) list \<Rightarrow> jsstring \<Rightarrow> bool" where
  "caches_member cs k = (map_of cs k \<noteq> None \<or> k \<in> set Object_prototype_members)"

text \<open>\<^verbatim>\<open>this.#rootCache?.invalidate()\<close>.\<close>

definition rootCache_invalidate :: "CliVersionsProvider \<Rightarrow> CliVersionsProvider" where
  "rootCache_invalidate p = p\<lparr>rootCache := map_option StateCache_invalidate (rootCache p)\<rparr>"

definition add :: "jsstring \<Rightarrow> CliVersionsProvider \<Rightarrow> CliVersionsProvider" where
  "add bin p =
     (if caches_member (caches p) bin then p
      else
        let cache = StateCache_subscribe InvalidateRootCache new_StateCache;
            p1 = p\<lparr>caches := caches p @ [(bin, cache)]\<rparr>
        in rootCache_invalidate p1)"

definition remove :: "jsstring \<Rightarrow> CliVersionsProvider \<Rightarrow> CliVersionsProvider" where
  "remove bin p =
     (if \<not> caches_member (caches p) bin \<or> bin \<in> set KNOWN_FLOW_COMMANDS then p
      else
        let p1 = p\<lparr>caches := filter (\<lambda>(k, c). k \<noteq> bin) (caches p)\<rparr>
        in rootCache_invalidate p1)"

text \<open>\<^verbatim>\<open>refresh\<close> calls \<^verbatim>\<open>invalidate\<close> on every leaf and on the root.\<close>

definition refresh :: "CliVersionsProvider \<Rightarrow> CliVersionsProvider" where
  "refresh p =
     rootCache_invalidate (p\<lparr>caches := map (\<lambda>(k, c). (k, StateCache_invalidate c)) (caches p)\<rparr>)"

text \<open>
  The constructor: the known commands, then the seeds, are added while \<^verbatim>\<open>#rootCache\<close> is
  still undefined; then the root entry is made.
\<close>

definition new_CliVersionsProvider :: "jsstring list \<Rightarrow> CliVersionsProvider" where
  "new_CliVersionsProvider seedBinaries =
     (let p0 = \<lparr>rootCache = None, caches = []\<rparr>;
          p1 = fold add KNOWN_FLOW_COMMANDS p0;
          p2 = fold add seedBinaries p1
      in p2\<lparr>rootCache := Some new_StateCache\<rparr>)"

text \<open>
  \<^verbatim>\<open>Object.keys\<close>: the keys that are array indices (canonical decimal numbers below
  \<open>2^32 - 1\<close>) in ascending order, then the other keys in the order they were created.
\<close>

definition is_array_index :: "jsstring \<Rightarrow> bool" where
  "is_array_index k = (numeric_identifier k \<and> to_number k < 4294967295)"

definition Object_keys :: "(jsstring \<times> 'a) list \<Rightarrow> jsstring list" where
  "Object_keys obj =
     sort_key to_number (filter is_array_index (map fst obj))
     @ filter (\<lambda>k. \<not> is_array_index k) (map fst obj)"

text \<open>\<^verbatim>\<open>Promise.all\<close> rejects when one of the promises does; \<^verbatim>\<open>.catch(() => null)\<close>.\<close>

fun Promise_all :: "(exn + 'a) list \<Rightarrow> exn + 'a list" where
  "Promise_all [] = Inr []"
| "Promise_all (Inl err # ps) = Inl err"
| "Promise_all (Inr v # ps) =
     (case Promise_all ps of Inl err \<Rightarrow> Inl err | Inr vs \<Rightarrow> Inr (v # vs))"

definition catch_null :: "exn + 'a option \<Rightarrow> exn + 'a option" where
  "catch_null r = (case r of Inl err \<Rightarrow> Inr None | Inr v \<Rightarrow> Inr v)"

text \<open>
  The fetcher of the root entry. \<open>leafValue bin\<close> is what
  \<^verbatim>\<open>this.#caches[bin].getValue()\<close> settles to; what that call does to the leaf entry
  itself is not followed here.
\<close>

definition rootFetcher ::
  "(jsstring \<Rightarrow> exn + CliBinary option) \<Rightarrow> CliVersionsProvider \<Rightarrow> exn + CliBinary list" where
  "rootFetcher leafValue p =
     (case Promise_all (map (\<lambda>bin. catch_null (leafValue bin)) (Object_keys (caches p))) of
        Inl err \<Rightarrow> Inl err
      | Inr binaries \<Rightarrow> Inr [b. Some b \<leftarrow> binaries])"

text \<open>
  \<^verbatim>\<open>getVersions\<close>: \<^verbatim>\<open>await this.#rootCache.getValue()\<close>, taken as one step. The fetch the
  call awaits is given the fetcher's result on the registry as it is at the call; a fetch that
  was begun earlier is taken to have read the same registry. What the leaf entries do to the
  root while the root fetch runs (a leaf that recomputes calls its subscriber, which
  invalidates the root) is not followed: only the list returned is. Before the constructor has
  made the root entry the call would throw; no method is reachable then.
\<close>

definition getVersions ::
  "(jsstring \<Rightarrow> exn + CliBinary option) \<Rightarrow> CliVersionsProvider
     \<Rightarrow> (exn + CliBinary list) \<times> CliVersionsProvider" where
  "getVersions leafValue p =
     (case rootCache p of
        None \<Rightarrow> (Inl (Error (js ''Cannot read properties of undefined'')), p)
      | Some rc \<Rightarrow>
          (case StateCache_await (rootFetcher leafValue p) rc of
             (r, rc') \<Rightarrow> (r, p\<lparr>rootCache := Some rc'\<rparr>)))"


section \<open>Sample environments\<close>

text \<open>
  Machines for the closed instances of the theorems: a \<^verbatim>\<open>flow\<close> that knows no
  \<^verbatim>\<open>--output\<close> flag and prints its version on the error stream, a \<^verbatim>\<open>flow\<close> that answers the
  JSON query (and whose plain-text answer holds a token semver rejects), and a machine with no
  \<^verbatim>\<open>flow\<close> at all.
\<close>

definition sample_exec :: "exn + exec_output \<Rightarrow> exn + exec_output \<Rightarrow> exec" where
  "sample_exec json_result plain_result cmd =
     (if cmd = js ''flow version --output=json'' then json_result
      else if cmd = js ''flow version'' then plain_result
      else Inl (Error (js ''command not found'')))"

definition sample_old_cli :: exec where
  "sample_old_cli =
     sample_exec (Inl (Error (js ''unknown flag'')))
       (Inr \<lparr>stdout = [], stderr = js ''Version: v1.2.3\<newline>''\<rparr>)"




definition sample_JSON_parse :: json_parse where
  \<open>sample_JSON_parse s =
     (if s = js ''{"version":"2.0.1"}''
      then Inr (JObject [(js ''version'', JString (js ''2.0.1''))])
      else if s = js ''{"version":"garbage"}''
      then Inr (JObject [(js ''version'', JString (js ''garbage''))])
      else Inl (Error (js ''SyntaxError'')))\<close>


text \<open>
  The values the sample environments give: what each leaf of a provider seeded with two more
  names settles to, that provider, and the provider after one \<open>getVersions\<close>.
\<close>

definition sample_leafValue :: "jsstring \<Rightarrow> exn + CliBinary option" where
  "sample_leafValue bin =
     (if bin = js ''flow-beta'' then Inl (Error (js ''FetchError''))
      else fst (fetchBinaryInformation sample_old_cli sample_JSON_parse bin))"

definition sample_provider :: CliVersionsProvider where
  "sample_provider = new_CliVersionsProvider [js ''flow-beta'', js ''flow-nightly'']"

definition sample_provider_fresh :: CliVersionsProvider where
  "sample_provider_fresh = snd (getVersions sample_leafValue sample_provider)"

definition sample_binary :: CliBinary where
  "sample_binary =
     \<lparr>cliCommand = js ''flow'',
      cliVersion = \<lparr>raw = js ''1.2.3'', major = 1, minor = 2, patch = 3, prerelease = [],
        build = [], version = js ''1.2.3''\<rparr>\<rparr>"


section \<open>Invariant of the cache entry\<close>

text \<open>
  Modelled from the spec: the in-flight marker counts the fetches. The fetches begun are the
  fetches settled, and one more while one is in flight.
\<close>

definition cache_inv :: "'a StateCache \<Rightarrow> bool" where
  "cache_inv c = (begun c = settled c + (if inFlight c then 1 else 0))"


section \<open>Properties of the semver functions\<close>

lemma split_on_nonempty: "split_on d s \<noteq> []"
  by (induction s) (auto split: list.splits)

lemma join_split_on: "join_with d (split_on d s) = s"
proof (induction s)
  case Nil
  show ?case by simp
next
  case (Cons c cs)
  show ?case
  proof (cases "split_on d cs")
    case Nil
    then show ?thesis using split_on_nonempty by blast
  next
    case (Cons p ps)
    with Cons.IH show ?thesis
      by (cases ps) auto
  qed
qed

lemma split_on_no_sep: "x \<in> set (split_on d s) \<Longrightarrow> d \<notin> set x"
  by (induction s arbitrary: x) (auto split: if_splits list.splits)

lemma split_on_chars: "x \<in> set (split_on d s) \<Longrightarrow> set x \<subseteq> set s"
proof (induction s arbitrary: x)
  case Nil
  then show ?case by simp
next
  case (Cons c cs)
  show ?case
  proof (cases "c = d")
    case True
    with Cons show ?thesis by auto
  next
    case False
    obtain p ps where ps: "split_on d cs = p # ps"
      using split_on_nonempty [of d cs] by (cases "split_on d cs") auto
    then have "set p \<subseteq> set cs" "\<forall>y\<in>set ps. set y \<subseteq> set cs"
      using Cons.IH by auto
    with Cons.prems False ps show ?thesis by auto
  qed
qed

lemma split_on_single: "d \<notin> set x \<Longrightarrow> split_on d x = [x]"
  by (induction x) auto

lemma split_on_append: "d \<notin> set x \<Longrightarrow> split_on d (x @ d # r) = x # split_on d r"
  by (induction x) auto

lemma split_join:
  "xs \<noteq> [] \<Longrightarrow> \<forall>x\<in>set xs. d \<notin> set x \<Longrightarrow> split_on d (join_with d xs) = xs"
proof (induction d xs rule: join_with.induct)
  case (1 d)
  then show ?case by simp
next
  case (2 d x)
  then show ?case by (simp add: split_on_single)
next
  case (3 d x y ys)
  then show ?case by (simp add: split_on_append)
qed

lemma to_number_snoc: "to_number (s @ [c]) = 10 * to_number s + (c - 48)"
  by (simp add: to_number_def)

lemma to_number_pos:
  "s \<noteq> [] \<Longrightarrow> list_all is_digit s \<Longrightarrow> hd s \<noteq> 48 \<Longrightarrow> 0 < to_number s"
proof (induction s rule: rev_induct)
  case Nil
  then show ?case by simp
next
  case (snoc c s)
  show ?case
  proof (cases s)
    case Nil
    with snoc.prems show ?thesis
      by (simp add: to_number_def is_digit_def)
  next
    case (Cons a as)
    with snoc.prems have "s \<noteq> []" "list_all is_digit s" "hd s \<noteq> 48" by auto
    then have "0 < to_number s" by (rule snoc.IH)
    then show ?thesis by (simp add: to_number_snoc)
  qed
qed

lemma show_nat_step: "0 < n \<Longrightarrow> d < 10 \<Longrightarrow> show_nat (10 * n + d) = show_nat n @ [48 + d]"
  by (subst show_nat.simps) simp

lemma show_to_number:
  "s \<noteq> [] \<Longrightarrow> list_all is_digit s \<Longrightarrow> hd s \<noteq> 48 \<or> s = [48] \<Longrightarrow> show_nat (to_number s) = s"
proof (induction s rule: rev_induct)
  case Nil
  then show ?case by simp
next
  case (snoc c s)
  have c: "48 \<le> c" "c - 48 < 10"
    using snoc.prems(2) by (auto simp: is_digit_def)
  show ?case
  proof (cases s)
    case Nil
    with c show ?thesis
      by (simp add: to_number_def show_nat.simps)
  next
    case (Cons a as)
    with snoc.prems have a: "hd s \<noteq> 48" "s \<noteq> []" "list_all is_digit s" by auto
    then have pos: "0 < to_number s" by (simp add: to_number_pos)
    have "show_nat (to_number (s @ [c])) = show_nat (10 * to_number s + (c - 48))"
      by (simp only: to_number_snoc)
    also have "\<dots> = show_nat (to_number s) @ [48 + (c - 48)]"
      using pos c(2) by (rule show_nat_step)
    also have "show_nat (to_number s) = s" using snoc.IH a by simp
    finally show ?thesis using c by simp
  qed
qed

lemma show_numeric_identifier: "numeric_identifier s \<Longrightarrow> show_nat (to_number s) = s"
  by (rule show_to_number) (auto simp: numeric_identifier_def split: list.splits if_splits)

lemma break_at_none:
  assumes "d \<notin> set s"
  shows "break_at d s = (s, None)"
proof -
  have t: "takeWhile (\<lambda>c. c \<noteq> d) s = s"
    using assms by (auto simp: takeWhile_eq_all_conv)
  have dr: "dropWhile (\<lambda>c. c \<noteq> d) s = []"
    using assms by (auto simp: dropWhile_eq_Nil_conv)
  show ?thesis unfolding break_at_def t dr by simp
qed

lemma break_at_some:
  assumes "d \<notin> set a"
  shows "break_at d (a @ d # r) = (a, Some r)"
proof -
  have a: "\<And>x. x \<in> set a \<Longrightarrow> x \<noteq> d" using assms by auto
  have t: "takeWhile (\<lambda>c. c \<noteq> d) (a @ d # r) = a"
    using a by (simp add: takeWhile_append2)
  have dr: "dropWhile (\<lambda>c. c \<noteq> d) (a @ d # r) = d # r"
    using a by (simp add: dropWhile_append2)
  show ?thesis unfolding break_at_def t dr by simp
qed

lemma break_at_recon:
  "break_at d s = (a, m) \<Longrightarrow> s = a @ (case m of None \<Rightarrow> [] | Some r \<Rightarrow> d # r)"
proof -
  assume b: "break_at d s = (a, m)"
  have s: "s = takeWhile (\<lambda>c. c \<noteq> d) s @ dropWhile (\<lambda>c. c \<noteq> d) s" by simp
  show ?thesis
  proof (cases "dropWhile (\<lambda>c. c \<noteq> d) s")
    case Nil
    with b s show ?thesis by (auto simp: break_at_def)
  next
    case (Cons c r)
    then have "c = d" using hd_dropWhile [of "\<lambda>c. c \<noteq> d" s] by auto
    with b s Cons show ?thesis by (auto simp: break_at_def)
  qed
qed

lemma digit_facts:
  "is_digit c \<Longrightarrow> \<not> is_space c \<and> c \<noteq> 43 \<and> c \<noteq> 45 \<and> c \<noteq> 46 \<and> c \<noteq> 61 \<and> c \<noteq> 118
     \<and> is_letterdashnumber c"
  by (auto simp: is_digit_def is_space_def is_white_space_def is_line_terminator_def
        is_letterdashnumber_def)

lemma letterdashnumber_facts:
  "is_letterdashnumber c \<Longrightarrow> \<not> is_space c \<and> c \<noteq> 43 \<and> c \<noteq> 46"
  by (auto simp: is_digit_def is_space_def is_white_space_def is_line_terminator_def
        is_letterdashnumber_def is_letterdash_def)

lemma numeric_identifier_digits: "numeric_identifier s \<Longrightarrow> list_all is_digit s \<and> s \<noteq> []"
  by (auto simp: numeric_identifier_def split: list.splits)

lemma prerelease_identifier_chars:
  assumes "prerelease_identifier s"
  shows "list_all is_letterdashnumber s \<and> s \<noteq> []"
proof (cases "numeric_identifier s")
  case True
  then show ?thesis
    using numeric_identifier_digits [of s] by (auto simp: list_all_iff digit_facts)
next
  case False
  with assms have n: "nonnumeric_identifier s" by (simp add: prerelease_identifier_def)
  then obtain c cs where d: "dropWhile is_digit s = c # cs" "is_letterdash c"
      "list_all is_letterdashnumber cs"
    by (auto simp: nonnumeric_identifier_def split: list.splits)
  have eq: "takeWhile is_digit s @ c # cs = s" using d(1) by (metis takeWhile_dropWhile_id)
  have "list_all is_letterdashnumber (takeWhile is_digit s @ c # cs)"
    using d(2,3)
    by (auto simp: list_all_iff is_letterdashnumber_def dest: set_takeWhileD)
  then have "list_all is_letterdashnumber s" by (simp only: eq)
  moreover have "s \<noteq> []" using d(1) by auto
  ultimately show ?thesis by simp
qed

lemma show_prerelease_of:
  assumes "prerelease_identifier s"
  shows "show_prerelease_id (prerelease_of s) = s"
proof (cases "s \<noteq> [] \<and> list_all is_digit s")
  case True
  then have dz: "dropWhile is_digit s = []" by (auto simp: list_all_iff dropWhile_eq_Nil_conv)
  have "\<not> nonnumeric_identifier s" unfolding nonnumeric_identifier_def dz by simp
  with assms have "numeric_identifier s" by (simp add: prerelease_identifier_def)
  then have "show_nat (to_number s) = s" by (rule show_numeric_identifier)
  then show ?thesis
    by (simp add: prerelease_of_def show_prerelease_id_def Let_def)
next
  case False
  then show ?thesis by (auto simp: prerelease_of_def show_prerelease_id_def)
qed

lemma join_with_chars: "set (join_with d xs) \<subseteq> insert d (\<Union>(set ` set xs))"
  by (induction d xs rule: join_with.induct) auto

lemma prerelease_text_chars:
  assumes "list_all prerelease_identifier (split_on 46 p)"
  shows "\<forall>c\<in>set p. is_letterdashnumber c \<or> c = 46"
proof
  fix c assume "c \<in> set p"
  then have "c \<in> set (join_with 46 (split_on 46 p))" by (simp add: join_split_on)
  then have "c = 46 \<or> (\<exists>x\<in>set (split_on 46 p). c \<in> set x)"
    using join_with_chars [of 46 "split_on 46 p"] by auto
  then show "is_letterdashnumber c \<or> c = 46"
    using assms prerelease_identifier_chars by (auto simp: list_all_iff)
qed

lemma prerelease_text_nonempty:
  assumes "list_all prerelease_identifier (split_on 46 p)"
  shows "p \<noteq> []"
proof
  assume "p = []"
  with assms have "prerelease_identifier []" by simp
  then show False using prerelease_identifier_chars by blast
qed

lemma FULL_SomeD:
  assumes "FULL s = Some (m1, m2, m3, m4, m5)"
  shows "numeric_identifier m1" "numeric_identifier m2" "numeric_identifier m3"
    "case m4 of None \<Rightarrow> True | Some p \<Rightarrow> list_all prerelease_identifier (split_on 46 p)"
    "length (version_text m1 m2 m3 m4) \<le> length s"
proof -
  define s1 where "s1 = (case s of [] \<Rightarrow> s | c # r \<Rightarrow> if c = 118 then r else s)"
  obtain s2 b where b1: "break_at 43 s1 = (s2, b)" by (cases "break_at 43 s1")
  obtain main p where b2: "break_at 45 s2 = (main, p)" by (cases "break_at 45 s2")
  from assms have sp: "split_on 46 main = [m1, m2, m3]"
    and ok: "numeric_identifier m1 \<and> numeric_identifier m2 \<and> numeric_identifier m3
        \<and> (case m4 of None \<Rightarrow> True | Some p \<Rightarrow> list_all prerelease_identifier (split_on 46 p))"
    and p: "p = m4"
    unfolding FULL_def s1_def [symmetric] Let_def b1 b2 prod.case
    by (auto split: list.splits if_splits)
  from ok show "numeric_identifier m1" "numeric_identifier m2" "numeric_identifier m3"
    "case m4 of None \<Rightarrow> True | Some p \<Rightarrow> list_all prerelease_identifier (split_on 46 p)"
    by simp_all
  have "main = join_with 46 (split_on 46 main)" by (simp add: join_split_on)
  then have main: "main = m1 @ 46 # m2 @ 46 # m3" by (simp add: sp)
  have "s2 = main @ (case p of None \<Rightarrow> [] | Some r \<Rightarrow> 45 # r)"
    using b2 by (rule break_at_recon)
  then have s2: "s2 = version_text m1 m2 m3 m4"
    by (simp add: main p version_text_def)
  have "s1 = s2 @ (case b of None \<Rightarrow> [] | Some r \<Rightarrow> 43 # r)"
    using b1 by (rule break_at_recon)
  then have "length s2 \<le> length s1" by simp
  moreover have "length s1 \<le> length s"
    by (auto simp: s1_def split: list.splits)
  ultimately show "length (version_text m1 m2 m3 m4) \<le> length s"
    by (simp add: s2)
qed

lemma version_text_chars:
  assumes "numeric_identifier m1" "numeric_identifier m2" "numeric_identifier m3"
    "case m4 of None \<Rightarrow> True | Some p \<Rightarrow> list_all prerelease_identifier (split_on 46 p)"
  shows "\<forall>c\<in>set (version_text m1 m2 m3 m4). is_letterdashnumber c \<or> c = 46"
proof -
  have d: "\<And>m c. numeric_identifier m \<Longrightarrow> c \<in> set m \<Longrightarrow> is_letterdashnumber c"
    using numeric_identifier_digits digit_facts by (auto simp: list_all_iff)
  have "is_letterdashnumber 45" by (simp add: is_letterdashnumber_def is_letterdash_def)
  then show ?thesis
    using assms d prerelease_text_chars
    by (cases m4) (auto simp: version_text_def)
qed

lemma version_text_head:
  assumes "numeric_identifier m1"
  shows "\<exists>c r. version_text m1 m2 m3 m4 = c # r \<and> is_digit c"
  using assms by (cases m1) (auto simp: version_text_def numeric_identifier_def)

lemma FULL_version_text:
  assumes "numeric_identifier m1" "numeric_identifier m2" "numeric_identifier m3"
    "case m4 of None \<Rightarrow> True | Some p \<Rightarrow> list_all prerelease_identifier (split_on 46 p)"
  shows "FULL (version_text m1 m2 m3 m4) = Some (m1, m2, m3, m4, None)"
proof -
  let ?v = "version_text m1 m2 m3 m4"
  let ?main = "m1 @ 46 # m2 @ 46 # m3"
  obtain c r where v: "?v = c # r" "is_digit c"
    using version_text_head [OF assms(1)] by blast
  then have c: "c \<noteq> 118" using digit_facts by blast
  have s1: "(case ?v of [] \<Rightarrow> ?v | c # r \<Rightarrow> if c = 118 then r else ?v) = ?v"
    using v c by simp
  have "\<not> is_letterdashnumber 43"
    by (simp add: is_letterdashnumber_def is_letterdash_def is_digit_def)
  then have "43 \<notin> set ?v"
    using version_text_chars [OF assms] by auto
  then have b1: "break_at 43 ?v = (?v, None)" by (rule break_at_none)
  have dig: "\<And>m c. numeric_identifier m \<Longrightarrow> c \<in> set m \<Longrightarrow> is_digit c"
    using numeric_identifier_digits by (auto simp: list_all_iff)
  have no45: "45 \<notin> set ?main"
    using dig [OF assms(1)] dig [OF assms(2)] dig [OF assms(3)] digit_facts by auto
  have b2: "break_at 45 ?v = (?main, m4)"
  proof (cases m4)
    case None
    then have "?v = ?main" by (simp add: version_text_def)
    with no45 None show ?thesis by (simp add: break_at_none)
  next
    case (Some p)
    have v': "version_text m1 m2 m3 (Some p) = ?main @ 45 # p"
      by (simp add: version_text_def)
    show ?thesis
      unfolding Some v' using no45 by (rule break_at_some)
  qed
  have n1: "46 \<notin> set m1" and n2: "46 \<notin> set m2" and n3: "46 \<notin> set m3"
    using dig [OF assms(1)] dig [OF assms(2)] dig [OF assms(3)] digit_facts by auto
  have sp: "split_on 46 ?main = [m1, m2, m3]"
    using n1 n2 n3 by (simp add: split_on_append split_on_single)
  show ?thesis
    unfolding FULL_def s1 Let_def b1 prod.case b2 sp
    using assms by simp
qed

lemma format_version_text:
  assumes "numeric_identifier m1" "numeric_identifier m2" "numeric_identifier m3"
    "case m4 of None \<Rightarrow> True | Some p \<Rightarrow> list_all prerelease_identifier (split_on 46 p)"
  shows "format (to_number m1) (to_number m2) (to_number m3)
           (case m4 of None \<Rightarrow> [] | Some p \<Rightarrow> map prerelease_of (split_on 46 p))
         = version_text m1 m2 m3 m4"
proof (cases m4)
  case None
  with assms show ?thesis
    by (simp add: format_def version_text_def show_numeric_identifier)
next
  case (Some p)
  with assms(4) have ok: "list_all prerelease_identifier (split_on 46 p)" by simp
  then have "map show_prerelease_id (map prerelease_of (split_on 46 p)) = split_on 46 p"
    by (auto simp: list_all_iff show_prerelease_of intro: map_idI)
  then have "join_with 46 (map show_prerelease_id (map prerelease_of (split_on 46 p))) = p"
    by (simp only: join_split_on)
  with assms Some show ?thesis
    by (simp add: format_def version_text_def show_numeric_identifier split_on_nonempty)
qed

lemma no_space_trim:
  assumes "\<forall>c\<in>set s. \<not> is_space c"
  shows "trim s = s"
proof -
  have a: "dropWhile is_space s = s" using assms by (cases s) auto
  have "\<forall>c\<in>set (rev s). \<not> is_space c" using assms by simp
  then have b: "dropWhile is_space (rev s) = rev s" by (cases "rev s") auto
  show ?thesis unfolding trim_def a b by simp
qed

lemma trim_length: "length (trim s) \<le> length s"
proof -
  have "length (trim s) \<le> length (dropWhile is_space s)"
    unfolding trim_def
    using length_dropWhile_le [of is_space "rev (dropWhile is_space s)"] by simp
  also have "\<dots> \<le> length s" by (rule length_dropWhile_le)
  finally show ?thesis .
qed

lemma version_char_not_space: "is_letterdashnumber c \<or> c = 46 \<Longrightarrow> \<not> is_space c"
  by (auto simp: is_digit_def is_space_def is_white_space_def is_line_terminator_def
        is_letterdashnumber_def is_letterdash_def)

lemma semver_parse_SomeD:
  assumes "semver_parse x = Some sv"
  obtains m1 m2 m3 m4 m5 where
    "FULL (trim x) = Some (m1, m2, m3, m4, m5)" "length x \<le> MAX_LENGTH"
    "to_number m1 \<le> MAX_SAFE_INTEGER" "to_number m2 \<le> MAX_SAFE_INTEGER"
    "to_number m3 \<le> MAX_SAFE_INTEGER"
    "sv = \<lparr>raw = x, major = to_number m1, minor = to_number m2, patch = to_number m3,
          prerelease = (case m4 of None \<Rightarrow> [] | Some p \<Rightarrow> map prerelease_of (split_on 46 p)),
          build = (case m5 of None \<Rightarrow> [] | Some b \<Rightarrow> split_on 46 b),
          version = version_text m1 m2 m3 m4\<rparr>"
proof -
  from assms have len: "length x \<le> MAX_LENGTH"
    by (auto simp: semver_parse_def split: if_splits)
  from assms len obtain m1 m2 m3 m4 m5 where f: "FULL (trim x) = Some (m1, m2, m3, m4, m5)"
    by (cases "FULL (trim x)") (auto simp: semver_parse_def)
  note ids = FULL_SomeD [OF f]
  from assms len f have n: "to_number m1 \<le> MAX_SAFE_INTEGER"
      "to_number m2 \<le> MAX_SAFE_INTEGER" "to_number m3 \<le> MAX_SAFE_INTEGER"
    by (auto simp: semver_parse_def Let_def split: if_splits)
  from assms len f n have
    "sv = \<lparr>raw = x, major = to_number m1, minor = to_number m2, patch = to_number m3,
          prerelease = (case m4 of None \<Rightarrow> [] | Some p \<Rightarrow> map prerelease_of (split_on 46 p)),
          build = (case m5 of None \<Rightarrow> [] | Some b \<Rightarrow> split_on 46 b),
          version = format (to_number m1) (to_number m2) (to_number m3)
            (case m4 of None \<Rightarrow> [] | Some p \<Rightarrow> map prerelease_of (split_on 46 p))\<rparr>"
    by (auto simp: semver_parse_def Let_def)
  then have "sv = \<lparr>raw = x, major = to_number m1, minor = to_number m2, patch = to_number m3,
          prerelease = (case m4 of None \<Rightarrow> [] | Some p \<Rightarrow> map prerelease_of (split_on 46 p)),
          build = (case m5 of None \<Rightarrow> [] | Some b \<Rightarrow> split_on 46 b),
          version = version_text m1 m2 m3 m4\<rparr>"
    by (simp only: format_version_text [OF ids(1-4)])
  with f len n show ?thesis by (rule that)
qed

lemma semver_parse_version:
  assumes "semver_parse x = Some sv"
  shows "semver_parse (version sv) = Some (sv\<lparr>raw := version sv, build := []\<rparr>)"
    and "trim (version sv) = version sv"
    and "strip_eq_v (version sv) = version sv"
proof -
  from assms obtain m1 m2 m3 m4 m5 where
    f: "FULL (trim x) = Some (m1, m2, m3, m4, m5)" and len: "length x \<le> MAX_LENGTH" and
    n: "to_number m1 \<le> MAX_SAFE_INTEGER" "to_number m2 \<le> MAX_SAFE_INTEGER"
       "to_number m3 \<le> MAX_SAFE_INTEGER" and
    sv: "sv = \<lparr>raw = x, major = to_number m1, minor = to_number m2, patch = to_number m3,
          prerelease = (case m4 of None \<Rightarrow> [] | Some p \<Rightarrow> map prerelease_of (split_on 46 p)),
          build = (case m5 of None \<Rightarrow> [] | Some b \<Rightarrow> split_on 46 b),
          version = version_text m1 m2 m3 m4\<rparr>"
    by (rule semver_parse_SomeD)
  note ids = FULL_SomeD [OF f]
  let ?v = "version_text m1 m2 m3 m4"
  have v: "version sv = ?v" by (simp add: sv)
  have "\<forall>c\<in>set ?v. \<not> is_space c"
    using version_text_chars [OF ids(1-4)] version_char_not_space by blast
  then have t: "trim ?v = ?v" by (rule no_space_trim)
  then show "trim (version sv) = version sv" by (simp only: v)
  obtain c r where h: "?v = c # r" "is_digit c"
    using version_text_head [OF ids(1)] by blast
  then have "c \<noteq> 61 \<and> c \<noteq> 118" using digit_facts by blast
  then have "strip_eq_v ?v = ?v" by (simp add: strip_eq_v_def h(1))
  then show "strip_eq_v (version sv) = version sv" by (simp only: v)
  have l: "length ?v \<le> MAX_LENGTH"
    using ids(5) trim_length [of x] len by linarith
  have "semver_parse ?v =
     Some \<lparr>raw = ?v, major = to_number m1, minor = to_number m2, patch = to_number m3,
          prerelease = (case m4 of None \<Rightarrow> [] | Some p \<Rightarrow> map prerelease_of (split_on 46 p)),
          build = [],
          version = format (to_number m1) (to_number m2) (to_number m3)
            (case m4 of None \<Rightarrow> [] | Some p \<Rightarrow> map prerelease_of (split_on 46 p))\<rparr>"
    using l n by (simp add: semver_parse_def t FULL_version_text [OF ids(1-4)] Let_def)
  then show "semver_parse (version sv) = Some (sv\<lparr>raw := version sv, build := []\<rparr>)"
    by (simp add: v format_version_text [OF ids(1-4)] sv)
qed

lemma semver_clean_valid:
  assumes "semver_clean x = Some v"
  shows "semver_valid v = Some v" and "semver_clean v = Some v"
proof -
  from assms obtain sv where p: "semver_parse (strip_eq_v (trim x)) = Some sv" and v: "v = version sv"
    by (auto simp: semver_clean_def split: option.splits)
  note r = semver_parse_version [OF p]
  show "semver_valid v = Some v"
    by (simp add: semver_valid_def v r(1))
  show "semver_clean v = Some v"
    by (simp add: semver_clean_def v r)
qed


section \<open>Properties of the version pattern\<close>

lemma greedy_from_None:
  "greedy_from n k s = None \<longleftrightarrow> (\<forall>i\<le>n. k (take i s) (drop i s) = None)"
proof (induction n)
  case 0
  show ?case by simp
next
  case (Suc n)
  show ?case
    by (auto simp: Suc.IH le_Suc_eq split: option.splits)
qed

lemma regexp_search_None:
  "regexp_search m s = None \<longleftrightarrow> (\<forall>i\<le>length s. m (drop i s) = None)"
proof (induction s)
  case Nil
  show ?case by simp
next
  case (Cons c cs)
  have "(\<forall>i\<le>length (c # cs). m (drop i (c # cs)) = None) \<longleftrightarrow>
        m (c # cs) = None \<and> (\<forall>i\<le>length cs. m (drop i cs) = None)"
  proof
    assume a: "\<forall>i\<le>length (c # cs). m (drop i (c # cs)) = None"
    then have "m (drop 0 (c # cs)) = None" by blast
    moreover have "\<forall>i\<le>length cs. m (drop i cs) = None"
    proof (intro allI impI)
      fix i assume "i \<le> length cs"
      then have "m (drop (Suc i) (c # cs)) = None" using a by (metis Suc_le_mono length_Cons)
      then show "m (drop i cs) = None" by simp
    qed
    ultimately show "m (c # cs) = None \<and> (\<forall>i\<le>length cs. m (drop i cs) = None)" by simp
  next
    assume a: "m (c # cs) = None \<and> (\<forall>i\<le>length cs. m (drop i cs) = None)"
    show "\<forall>i\<le>length (c # cs). m (drop i (c # cs)) = None"
    proof (intro allI impI)
      fix i assume "i \<le> length (c # cs)"
      then show "m (drop i (c # cs)) = None" using a by (cases i) auto
    qed
  qed
  then show ?case
    by (auto simp: Cons.IH split: option.splits)
qed

lemma greedy_matches:
  assumes "i \<le> length (takeWhile cls s)" "k (take i s) (drop i s) \<noteq> None"
  shows "greedy cls k s \<noteq> None"
proof
  assume "greedy cls k s = None"
  then have "\<forall>i\<le>length (takeWhile cls s). k (take i s) (drop i s) = None"
    unfolding greedy_def greedy_from_None .
  then have "k (take i s) (drop i s) = None" using assms(1) by simp
  with assms(2) show False by simp
qed

lemma greedy_matchesE:
  assumes "greedy cls k s \<noteq> None"
  obtains i where "i \<le> length (takeWhile cls s)" "k (take i s) (drop i s) \<noteq> None"
proof -
  from assms have "\<not> (\<forall>i\<le>length (takeWhile cls s). k (take i s) (drop i s) = None)"
    unfolding greedy_def greedy_from_None .
  then have "\<exists>i. i \<le> length (takeWhile cls s) \<and> k (take i s) (drop i s) \<noteq> None"
    by simp
  then obtain i where "i \<le> length (takeWhile cls s)" "k (take i s) (drop i s) \<noteq> None"
    by (elim exE conjE)
  then show ?thesis by (rule that)
qed

lemma take_within_takeWhile:
  assumes "i \<le> length (takeWhile P s)"
  shows "list_all P (take i s)"
proof -
  have "take i s = take i (takeWhile P s @ dropWhile P s)" by simp
  also have "\<dots> = take i (takeWhile P s)" using assms by (simp del: takeWhile_dropWhile_id)
  finally have "set (take i s) \<subseteq> set (takeWhile P s)" by (simp add: set_take_subset)
  then show ?thesis by (auto simp: list_all_iff dest: set_takeWhileD)
qed

lemma Version_length: "length (js ''Version:'') = 8"
  by (simp add: js_def)

lemma LEGACY_VERSION_REGEXP_here_matches:
  "LEGACY_VERSION_REGEXP_here t \<noteq> None \<longleftrightarrow>
     (\<exists>spaces token rest.
        t = js ''Version:'' @ spaces @ 118 # token @ rest
        \<and> list_all is_space spaces \<and> list_all is_dot token
        \<and> (next_is is_space rest \<or> at_line_end rest))"
  (is "?lhs \<longleftrightarrow> ?rhs")
proof
  assume ?lhs
  then have hd8: "take 8 t = js ''Version:''"
    by (auto simp: LEGACY_VERSION_REGEXP_here_def split: if_splits)
  let ?d = "drop 8 t"
  let ?k2 = "\<lambda>group1 r3. if next_is is_space r3 \<or> at_line_end r3 then Some group1 else None"
  let ?k1 = "\<lambda>(spaces::jsstring) r1. case r1 of [] \<Rightarrow> None
              | c # r2 \<Rightarrow> if c = 118 then greedy is_dot ?k2 r2 else None"
  from \<open>?lhs\<close> hd8 have g1: "greedy is_space ?k1 ?d \<noteq> None"
    by (simp add: LEGACY_VERSION_REGEXP_here_def)
  from g1 obtain i where i: "i \<le> length (takeWhile is_space ?d)"
      "?k1 (take i ?d) (drop i ?d) \<noteq> None"
    by (rule greedy_matchesE)
  obtain r2 where r2: "drop i ?d = 118 # r2" "greedy is_dot ?k2 r2 \<noteq> None"
  proof (cases "drop i ?d")
    case Nil
    with i(2) show ?thesis by simp
  next
    case (Cons c r)
    with i(2) have "c = 118" "greedy is_dot ?k2 r \<noteq> None"
      by (simp_all split: if_splits)
    with Cons show ?thesis by (intro that) simp_all
  qed
  from r2(2) obtain j where j: "j \<le> length (takeWhile is_dot r2)"
      "?k2 (take j r2) (drop j r2) \<noteq> None"
    by (rule greedy_matchesE)
  from j(2) have e: "next_is is_space (drop j r2) \<or> at_line_end (drop j r2)"
    by (simp split: if_splits)
  have a1: "take 8 t @ ?d = t" by (rule append_take_drop_id)
  have a2: "take i ?d @ drop i ?d = ?d" by (rule append_take_drop_id)
  have a3: "take j r2 @ drop j r2 = r2" by (rule append_take_drop_id)
  have "js ''Version:'' @ take i ?d @ 118 # take j r2 @ drop j r2
        = take 8 t @ take i ?d @ drop i ?d"
    unfolding r2(1) a3 hd8 ..
  also have "\<dots> = t" unfolding a2 a1 ..
  finally have "t = js ''Version:'' @ take i ?d @ 118 # take j r2 @ drop j r2" ..
  moreover have "list_all is_space (take i ?d)" using i(1) by (rule take_within_takeWhile)
  moreover have "list_all is_dot (take j r2)" using j(1) by (rule take_within_takeWhile)
  ultimately have "t = js ''Version:'' @ take i ?d @ 118 # take j r2 @ drop j r2
      \<and> list_all is_space (take i ?d) \<and> list_all is_dot (take j r2)
      \<and> (next_is is_space (drop j r2) \<or> at_line_end (drop j r2))"
    using e by (intro conjI)
  then show ?rhs by (intro exI)
next
  assume ?rhs
  then obtain spaces token rest where
    t: "t = js ''Version:'' @ spaces @ 118 # token @ rest" and
    sp: "list_all is_space spaces" and tk: "list_all is_dot token" and
    e: "next_is is_space rest \<or> at_line_end rest"
    by blast
  let ?k2 = "\<lambda>group1 r3. if next_is is_space r3 \<or> at_line_end r3 then Some group1 else None"
  let ?k1 = "\<lambda>(spaces::jsstring) r1. case r1 of [] \<Rightarrow> None
              | c # r2 \<Rightarrow> if c = 118 then greedy is_dot ?k2 r2 else None"
  have hd8: "take 8 t = js ''Version:''" and d8: "drop 8 t = spaces @ 118 # token @ rest"
    by (simp_all add: t Version_length)
  have "\<not> is_space 118"
    by (simp add: is_space_def is_white_space_def is_line_terminator_def)
  then have tw: "takeWhile is_space (spaces @ 118 # token @ rest) = spaces"
    using sp by (simp add: list_all_iff takeWhile_append2)
  have l2: "length token \<le> length (takeWhile is_dot (token @ rest))"
    using tk by (simp add: list_all_iff takeWhile_append2)
  have c2: "?k2 (take (length token) (token @ rest)) (drop (length token) (token @ rest)) \<noteq> None"
    using e by simp
  have in2: "greedy is_dot ?k2 (token @ rest) \<noteq> None"
    using l2 c2 by (rule greedy_matches)
  have l1: "length spaces \<le> length (takeWhile is_space (spaces @ 118 # token @ rest))"
    by (simp only: tw)
  have c1: "?k1 (take (length spaces) (spaces @ 118 # token @ rest))
            (drop (length spaces) (spaces @ 118 # token @ rest)) \<noteq> None"
    using in2 by simp
  have "greedy is_space ?k1 (spaces @ 118 # token @ rest) \<noteq> None"
    using l1 c1 by (rule greedy_matches)
  then show ?lhs
    by (simp add: LEGACY_VERSION_REGEXP_here_def hd8 d8)
qed


lemma dot_run_ends_line: "at_line_end (dropWhile is_dot s)"
proof (cases "dropWhile is_dot s")
  case Nil
  show ?thesis unfolding at_line_end_def Nil by simp
next
  case (Cons c cs)
  then have "\<not> is_dot c" using hd_dropWhile [of is_dot s] by auto
  then show ?thesis unfolding at_line_end_def Cons by (simp add: is_dot_def)
qed

lemma LEGACY_VERSION_REGEXP_matches:
  "LEGACY_VERSION_REGEXP s \<noteq> None \<longleftrightarrow> version_pattern_matches s"
proof
  assume "LEGACY_VERSION_REGEXP s \<noteq> None"
  then have "\<not> (\<forall>i\<le>length s. LEGACY_VERSION_REGEXP_here (drop i s) = None)"
    unfolding LEGACY_VERSION_REGEXP_def regexp_search_None .
  then have "\<exists>i. LEGACY_VERSION_REGEXP_here (drop i s) \<noteq> None" by auto
  then obtain i where "LEGACY_VERSION_REGEXP_here (drop i s) \<noteq> None" ..
  then have "\<exists>spaces token rest.
        drop i s = js ''Version:'' @ spaces @ 118 # token @ rest
        \<and> list_all is_space spaces \<and> list_all is_dot token
        \<and> (next_is is_space rest \<or> at_line_end rest)"
    by (simp only: LEGACY_VERSION_REGEXP_here_matches)
  then obtain spaces token rest where
    d: "drop i s = js ''Version:'' @ spaces @ 118 # token @ rest" and
    r: "list_all is_space spaces"
    by (elim exE conjE) (intro that)
  have "take i s @ drop i s = s" by (rule append_take_drop_id)
  then have "s = take i s @ js ''Version:'' @ spaces @ 118 # (token @ rest)"
    unfolding d by (rule sym)
  with r have "s = take i s @ js ''Version:'' @ spaces @ 118 # (token @ rest)
      \<and> list_all is_space spaces"
    by (rule conjI [rotated])
  then show "version_pattern_matches s"
    unfolding version_pattern_matches_def by (intro exI)
next
  assume "version_pattern_matches s"
  then obtain before spaces rest where
    s: "s = before @ js ''Version:'' @ spaces @ 118 # rest" and
    r: "list_all is_space spaces"
    unfolding version_pattern_matches_def by (elim exE conjE) (intro that)
  let ?token = "takeWhile is_dot rest"
  let ?rest = "dropWhile is_dot rest"
  have "drop (length before) s = js ''Version:'' @ spaces @ 118 # ?token @ ?rest"
    unfolding s by simp
  moreover have "list_all is_dot ?token"
    by (auto simp: list_all_iff dest: set_takeWhileD)
  moreover have "next_is is_space ?rest \<or> at_line_end ?rest"
    using dot_run_ends_line by simp
  ultimately have "drop (length before) s = js ''Version:'' @ spaces @ 118 # ?token @ ?rest
        \<and> list_all is_space spaces \<and> list_all is_dot ?token
        \<and> (next_is is_space ?rest \<or> at_line_end ?rest)"
    using r by (intro conjI)
  then have "\<exists>spaces token rest.
        drop (length before) s = js ''Version:'' @ spaces @ 118 # token @ rest
        \<and> list_all is_space spaces \<and> list_all is_dot token
        \<and> (next_is is_space rest \<or> at_line_end rest)"
    by (intro exI)
  then have h: "LEGACY_VERSION_REGEXP_here (drop (length before) s) \<noteq> None"
    by (simp only: LEGACY_VERSION_REGEXP_here_matches)
  have l: "length before \<le> length s" unfolding s by simp
  show "LEGACY_VERSION_REGEXP s \<noteq> None"
  proof
    assume "LEGACY_VERSION_REGEXP s = None"
    then have "\<forall>i\<le>length s. LEGACY_VERSION_REGEXP_here (drop i s) = None"
      unfolding LEGACY_VERSION_REGEXP_def regexp_search_None .
    then have "LEGACY_VERSION_REGEXP_here (drop (length before) s) = None"
      using l by simp
    with h show False by simp
  qed
qed

text \<open>
  C5. \<open>parseFlowCliVersion\<close> turns \<^verbatim>\<open>"Version: v1.2.3\n"\<close> into \<^verbatim>\<open>"1.2.3"\<close>, and an input
  in which the pattern \<^verbatim>\<open>Version:\s*v(<token>)\<close> has no match gives no value.
\<close>

theorem parseFlowCliVersion_extracts_version:
  "parseFlowCliVersion (js ''Version: v1.2.3\<newline>'') = Some (js ''1.2.3'')
   \<and> (\<not> version_pattern_matches buffer \<longrightarrow> parseFlowCliVersion buffer = None)"
proof
  show "parseFlowCliVersion (js ''Version: v1.2.3\<newline>'') = Some (js ''1.2.3'')"
    by code_simp
  show "\<not> version_pattern_matches buffer \<longrightarrow> parseFlowCliVersion buffer = None"
  proof
    assume "\<not> version_pattern_matches buffer"
    then have "LEGACY_VERSION_REGEXP buffer = None"
      using LEGACY_VERSION_REGEXP_matches [of buffer] by simp
    then show "parseFlowCliVersion buffer = None"
      by (simp add: parseFlowCliVersion_def)
  qed
qed

theorem parseFlowCliVersion_extracts_version_witness:
  "\<not> version_pattern_matches (js ''flow: command not found'')
   \<and> parseFlowCliVersion (js ''flow: command not found'') = None"
proof -
  have "LEGACY_VERSION_REGEXP (js ''flow: command not found'') = None"
    by code_simp
  then have n: "\<not> version_pattern_matches (js ''flow: command not found'')"
    using LEGACY_VERSION_REGEXP_matches [of "js ''flow: command not found''"] by simp
  with parseFlowCliVersion_extracts_version [of "js ''flow: command not found''"]
  show ?thesis by simp
qed

text \<open>
  C10. What \<open>parseFlowCliVersion\<close> returns is either no value or a version string that
  \<open>semver.valid\<close> and \<open>semver.clean\<close> give back unchanged. A matched token that
  \<open>semver.clean\<close> rejects gives no value, and a matched token that is not itself such a
  version string is never what is returned.
\<close>

theorem parseFlowCliVersion_result_is_clean_semver:
  "(parseFlowCliVersion buffer = None
    \<or> (\<exists>v. parseFlowCliVersion buffer = Some v \<and> semver_valid v = Some v
            \<and> semver_clean v = Some v))
   \<and> (LEGACY_VERSION_REGEXP buffer = Some rawMatch \<and> semver_clean rawMatch = None \<longrightarrow>
        parseFlowCliVersion buffer = None)
   \<and> (LEGACY_VERSION_REGEXP buffer = Some rawMatch \<and> semver_valid rawMatch \<noteq> Some rawMatch \<longrightarrow>
        parseFlowCliVersion buffer \<noteq> Some rawMatch)"
proof (intro conjI impI)
  show "parseFlowCliVersion buffer = None
    \<or> (\<exists>v. parseFlowCliVersion buffer = Some v \<and> semver_valid v = Some v
            \<and> semver_clean v = Some v)"
  proof (cases "parseFlowCliVersion buffer")
    case None
    then show ?thesis by simp
  next
    case (Some v)
    then obtain tok where "semver_clean tok = Some v"
      by (auto simp: parseFlowCliVersion_def split: option.splits)
    then have "semver_valid v = Some v" "semver_clean v = Some v"
      by (rule semver_clean_valid)+
    with Some show ?thesis by simp
  qed
next
  assume "LEGACY_VERSION_REGEXP buffer = Some rawMatch \<and> semver_clean rawMatch = None"
  then show "parseFlowCliVersion buffer = None"
    by (simp add: parseFlowCliVersion_def)
next
  assume a: "LEGACY_VERSION_REGEXP buffer = Some rawMatch \<and> semver_valid rawMatch \<noteq> Some rawMatch"
  show "parseFlowCliVersion buffer \<noteq> Some rawMatch"
  proof
    assume "parseFlowCliVersion buffer = Some rawMatch"
    with a have "semver_clean rawMatch = Some rawMatch"
      by (simp add: parseFlowCliVersion_def)
    then have "semver_valid rawMatch = Some rawMatch" by (rule semver_clean_valid)
    with a show False by simp
  qed
qed

theorem parseFlowCliVersion_result_is_clean_semver_witness:
  "LEGACY_VERSION_REGEXP (js ''Version: v1.2.3 abc\<newline>'') = Some (js ''1.2.3 abc'')
   \<and> semver_clean (js ''1.2.3 abc'') = None
   \<and> parseFlowCliVersion (js ''Version: v1.2.3 abc\<newline>'') = None
   \<and> LEGACY_VERSION_REGEXP (js ''Version: vv1.2.3\<newline>'') = Some (js ''v1.2.3'')
   \<and> semver_valid (js ''v1.2.3'') \<noteq> Some (js ''v1.2.3'')
   \<and> parseFlowCliVersion (js ''Version: vv1.2.3\<newline>'') \<noteq> Some (js ''v1.2.3'')
   \<and> parseFlowCliVersion (js ''Version: vv1.2.3\<newline>'') \<noteq> None"
proof -
  have a: "LEGACY_VERSION_REGEXP (js ''Version: v1.2.3 abc\<newline>'') = Some (js ''1.2.3 abc'')"
    by code_simp
  have b: "semver_clean (js ''1.2.3 abc'') = None"
    by code_simp
  have c: "LEGACY_VERSION_REGEXP (js ''Version: vv1.2.3\<newline>'') = Some (js ''v1.2.3'')"
    by code_simp
  have d: "semver_valid (js ''v1.2.3'') = Some (js ''1.2.3'')"
    by code_simp
  have e: "js ''1.2.3'' \<noteq> js ''v1.2.3''"
    by (simp add: js_def)
  have f: "parseFlowCliVersion (js ''Version: vv1.2.3\<newline>'') = Some (js ''1.2.3'')"
    by code_simp
  show ?thesis
    using a b c d e f
      parseFlowCliVersion_result_is_clean_semver
        [of "js ''Version: v1.2.3 abc\<newline>''" "js ''1.2.3 abc''"]
      parseFlowCliVersion_result_is_clean_semver
        [of "js ''Version: vv1.2.3\<newline>''" "js ''v1.2.3''"]
    by simp
qed


section \<open>Properties of the resolver\<close>








section \<open>Properties of the cache entry\<close>

lemma cache_inv_new: "cache_inv new_StateCache"
  by (simp add: cache_inv_def new_StateCache_def)

lemma cache_inv_step: "cache_inv c \<Longrightarrow> cache_inv (StateCache_step ev c)"
  by (cases ev)
     (auto simp: cache_inv_def StateCache_getValue_def StateCache_invalidate_def
        StateCache_settle_def StateCache_subscribe_def StateCache_dispose_def begin_fetch_def
        Let_def split: sum.splits)

lemma cache_inv_fold: "cache_inv c \<Longrightarrow> cache_inv (fold StateCache_step evs c)"
  by (induction evs arbitrary: c) (simp_all add: cache_inv_step)

lemma cache_inv_run: "cache_inv (StateCache_run evs new_StateCache)"
  unfolding StateCache_run_def by (rule cache_inv_fold [OF cache_inv_new])

lemma cache_inv_outstanding: "cache_inv c \<Longrightarrow> outstanding c = (if inFlight c then 1 else 0)"
  by (simp add: cache_inv_def outstanding_def)

lemma invalidate_many:
  assumes "inFlight c"
  shows "(StateCache_invalidate ^^ Suc n) c = c\<lparr>fresh := False, owed := True\<rparr>"
proof (induction n)
  case 0
  from assms show ?case by (simp add: StateCache_invalidate_def)
next
  case (Suc n)
  have "(StateCache_invalidate ^^ Suc (Suc n)) c
        = StateCache_invalidate ((StateCache_invalidate ^^ Suc n) c)"
    by simp
  also have "\<dots> = StateCache_invalidate (c\<lparr>fresh := False, owed := True\<rparr>)"
    by (simp only: Suc.IH)
  also have "\<dots> = c\<lparr>fresh := False, owed := True\<rparr>"
    using assms by (simp add: StateCache_invalidate_def)
  finally show ?case .
qed

text \<open>
  C2, on the entry as the specification describes it. After any history of calls and
  settlements at most one fetch is outstanding. When a fetch is outstanding, \<open>n \<ge> 1\<close> calls of
  \<open>invalidate\<close> begin no fetch themselves; when the fetch then settles, exactly one further
  fetch is begun, it is the only one outstanding and nothing more is owed; and when that one
  settles in turn, no further fetch is begun.
\<close>

theorem StateCache_one_fetch_one_follow_up:
  "outstanding (StateCache_run evs new_StateCache) \<le> 1
   \<and> (inFlight (StateCache_run evs new_StateCache) \<and> 1 \<le> n \<longrightarrow>
        begun ((StateCache_invalidate ^^ n) (StateCache_run evs new_StateCache))
          = begun (StateCache_run evs new_StateCache)
      \<and> begun (StateCache_settle r ((StateCache_invalidate ^^ n) (StateCache_run evs new_StateCache)))
          = begun (StateCache_run evs new_StateCache) + 1
      \<and> outstanding (StateCache_settle r
            ((StateCache_invalidate ^^ n) (StateCache_run evs new_StateCache))) = 1
      \<and> \<not> owed (StateCache_settle r
            ((StateCache_invalidate ^^ n) (StateCache_run evs new_StateCache)))
      \<and> begun (StateCache_settle r' (StateCache_settle r
            ((StateCache_invalidate ^^ n) (StateCache_run evs new_StateCache))))
          = begun (StateCache_run evs new_StateCache) + 1
      \<and> outstanding (StateCache_settle r' (StateCache_settle r
            ((StateCache_invalidate ^^ n) (StateCache_run evs new_StateCache)))) = 0)"
proof
  let ?c = "StateCache_run evs new_StateCache"
  have inv: "cache_inv ?c" by (rule cache_inv_run)
  then show "outstanding ?c \<le> 1" by (simp add: cache_inv_outstanding)
  show "inFlight ?c \<and> 1 \<le> n \<longrightarrow>
        begun ((StateCache_invalidate ^^ n) ?c) = begun ?c
      \<and> begun (StateCache_settle r ((StateCache_invalidate ^^ n) ?c)) = begun ?c + 1
      \<and> outstanding (StateCache_settle r ((StateCache_invalidate ^^ n) ?c)) = 1
      \<and> \<not> owed (StateCache_settle r ((StateCache_invalidate ^^ n) ?c))
      \<and> begun (StateCache_settle r' (StateCache_settle r ((StateCache_invalidate ^^ n) ?c)))
          = begun ?c + 1
      \<and> outstanding (StateCache_settle r' (StateCache_settle r
            ((StateCache_invalidate ^^ n) ?c))) = 0"
  proof
    assume a: "inFlight ?c \<and> 1 \<le> n"
    then obtain m where n: "n = Suc m" by (cases n) auto
    have i: "(StateCache_invalidate ^^ n) ?c = ?c\<lparr>fresh := False, owed := True\<rparr>"
      unfolding n using a by (intro invalidate_many) simp
    have b: "begun ?c = settled ?c + 1"
      using inv a by (simp add: cache_inv_def)
    show "begun ((StateCache_invalidate ^^ n) ?c) = begun ?c
      \<and> begun (StateCache_settle r ((StateCache_invalidate ^^ n) ?c)) = begun ?c + 1
      \<and> outstanding (StateCache_settle r ((StateCache_invalidate ^^ n) ?c)) = 1
      \<and> \<not> owed (StateCache_settle r ((StateCache_invalidate ^^ n) ?c))
      \<and> begun (StateCache_settle r' (StateCache_settle r ((StateCache_invalidate ^^ n) ?c)))
          = begun ?c + 1
      \<and> outstanding (StateCache_settle r' (StateCache_settle r
            ((StateCache_invalidate ^^ n) ?c))) = 0"
      unfolding i using a b
      by (cases r') (simp_all add: StateCache_settle_def begin_fetch_def outstanding_def Let_def)
  qed
qed


theorem StateCache_one_fetch_one_follow_up_witness:
  "inFlight (StateCache_run [GetValue] (new_StateCache :: nat StateCache))
   \<and> (1::nat) \<le> 3
   \<and> begun (StateCache_run [GetValue] (new_StateCache :: nat StateCache)) = 1
   \<and> begun ((StateCache_invalidate ^^ 3) (StateCache_run [GetValue] (new_StateCache :: nat StateCache))) = 1
   \<and> begun (StateCache_settle (Inr 7)
        ((StateCache_invalidate ^^ 3) (StateCache_run [GetValue] (new_StateCache :: nat StateCache)))) = 2
   \<and> outstanding (StateCache_settle (Inr 7)
        ((StateCache_invalidate ^^ 3) (StateCache_run [GetValue] (new_StateCache :: nat StateCache)))) = 1
   \<and> begun (StateCache_settle (Inr 8) (StateCache_settle (Inr 7)
        ((StateCache_invalidate ^^ 3) (StateCache_run [GetValue] (new_StateCache :: nat StateCache))))) = 2"
proof -
  have a: "inFlight (StateCache_run [GetValue] (new_StateCache :: nat StateCache))"
    by (simp add: StateCache_run_def StateCache_getValue_def new_StateCache_def begin_fetch_def)
  have b: "begun (StateCache_run [GetValue] (new_StateCache :: nat StateCache)) = 1"
    by (simp add: StateCache_run_def StateCache_getValue_def new_StateCache_def begin_fetch_def)
  have c: "(1::nat) \<le> 3" by simp
  show ?thesis
    using a b c
      StateCache_one_fetch_one_follow_up
        [of "[GetValue]" 3 "Inr (7::nat)" "Inr (8::nat)"]
    by simp
qed


section \<open>Properties of the registry\<close>




lemma sample_getVersions_value: "fst (getVersions sample_leafValue sample_provider) = Inr [sample_binary]"
  by code_simp

lemma sample_provider_fresh_value: "sample_provider_fresh =
   sample_provider\<lparr>rootCache := Some (new_StateCache\<lparr>cached := Some [sample_binary], fresh := True,
      begun := 1, settled := 1\<rparr>)\<rparr>"
  by code_simp

lemma Promise_all_caught:
  "Promise_all (map (\<lambda>bin. catch_null (leafValue bin)) keys)
   = Inr (map (\<lambda>bin. case leafValue bin of Inl err \<Rightarrow> None | Inr v \<Rightarrow> v) keys)"
  by (induction keys) (auto simp: catch_null_def split: sum.splits)

lemma collect_values:
  "[b. Some b \<leftarrow> map (\<lambda>bin. case leafValue bin of Inl err \<Rightarrow> None | Inr v \<Rightarrow> v) keys]
   = [b. bin \<leftarrow> keys, Inr (Some b) \<leftarrow> [leafValue bin]]"
  by (induction keys) (auto split: sum.splits option.splits)

lemma rootFetcher_result:
  "rootFetcher leafValue p
   = Inr [b. bin \<leftarrow> Object_keys (caches p), Inr (Some b) \<leftarrow> [leafValue bin]]"
proof -
  have "rootFetcher leafValue p
        = Inr [b. Some b \<leftarrow> map (\<lambda>bin. case leafValue bin of Inl err \<Rightarrow> None | Inr v \<Rightarrow> v)
                                  (Object_keys (caches p))]"
    by (simp only: rootFetcher_def Promise_all_caught sum.case)
  then show ?thesis by (simp only: collect_values)
qed

lemma Object_keys_set: "set (Object_keys obj) = fst ` set obj"
  by (auto simp: Object_keys_def)





lemma add_member: "caches_member (caches (add bin p)) bin"
  by (auto simp: add_def caches_member_def rootCache_invalidate_def Let_def map_add_def)

text \<open>
  C9. \<open>add\<close> of a name that \<^verbatim>\<open>#caches\<close> already answers for returns the registry as it
  is (entries, subscriptions and the root entry included), so a second \<open>add\<close> of the same
  name changes nothing after the first.
\<close>

theorem add_idempotent:
  "(caches_member (caches p) bin \<longrightarrow> add bin p = p) \<and> add bin (add bin p) = add bin p"
proof
  show "caches_member (caches p) bin \<longrightarrow> add bin p = p"
    by (simp add: add_def)
  have "caches_member (caches (add bin p)) bin" by (rule add_member)
  then show "add bin (add bin p) = add bin p"
    by (simp add: add_def [of bin "add bin p"])
qed

theorem add_idempotent_witness:
  "caches_member (caches sample_provider) (js ''flow-beta'')
   \<and> add (js ''flow-beta'') sample_provider = sample_provider
   \<and> add (js ''flow-beta'') (add (js ''flow-beta'') (new_CliVersionsProvider []))
       = add (js ''flow-beta'') (new_CliVersionsProvider [])"
proof -
  have a: "caches_member (caches sample_provider) (js ''flow-beta'')"
    by code_simp
  show ?thesis
    using a add_idempotent [of sample_provider "js ''flow-beta''"]
      add_idempotent [of "new_CliVersionsProvider []" "js ''flow-beta''"]
    by simp
qed

lemma rootFetcher_ignores_absent:
  assumes "bin \<notin> fst ` set (caches p)"
  shows "rootFetcher (leafValue(bin := x)) p = rootFetcher leafValue p"
proof -
  have "\<And>keys. bin \<notin> set keys \<Longrightarrow>
      [b. k \<leftarrow> keys, Inr (Some b) \<leftarrow> [(leafValue(bin := x)) k]]
      = [b. k \<leftarrow> keys, Inr (Some b) \<leftarrow> [leafValue k]]"
  proof -
    fix keys show "bin \<notin> set keys \<Longrightarrow>
      [b. k \<leftarrow> keys, Inr (Some b) \<leftarrow> [(leafValue(bin := x)) k]]
      = [b. k \<leftarrow> keys, Inr (Some b) \<leftarrow> [leafValue k]]"
      by (induction keys) auto
  qed
  then show ?thesis
    using assms by (simp add: rootFetcher_result Object_keys_set)
qed

text \<open>
  C8 as the source has it. \<open>remove\<close> leaves the registry as it is for a known name and
  for a name \<^verbatim>\<open>#caches\<close> does not answer for. For any other name it deletes the entry of
  that name and invalidates the root entry, which is stale afterwards; the name is no longer
  among the keys, and what its leaf would have given no longer bears on the root fetcher.
  \<open>remove\<close> is a total function: it has no operation that throws.
\<close>

theorem remove_discards_registered_dynamic_entry:
  "(bin \<in> set KNOWN_FLOW_COMMANDS \<longrightarrow> remove bin p = p)
   \<and> (\<not> caches_member (caches p) bin \<longrightarrow> remove bin p = p)
   \<and> (caches_member (caches p) bin \<and> bin \<notin> set KNOWN_FLOW_COMMANDS \<longrightarrow>
        caches (remove bin p) = filter (\<lambda>(k, c). k \<noteq> bin) (caches p)
      \<and> rootCache (remove bin p) = map_option StateCache_invalidate (rootCache p)
      \<and> (\<forall>rc. rootCache (remove bin p) = Some rc \<longrightarrow> \<not> fresh rc)
      \<and> bin \<notin> set (Object_keys (caches (remove bin p)))
      \<and> rootFetcher (leafValue(bin := x)) (remove bin p) = rootFetcher leafValue (remove bin p))"
proof (intro conjI impI)
  show "bin \<in> set KNOWN_FLOW_COMMANDS \<Longrightarrow> remove bin p = p"
    by (simp add: remove_def)
  show "\<not> caches_member (caches p) bin \<Longrightarrow> remove bin p = p"
    by (simp add: remove_def)
  assume a: "caches_member (caches p) bin \<and> bin \<notin> set KNOWN_FLOW_COMMANDS"
  then have r: "remove bin p
      = rootCache_invalidate (p\<lparr>caches := filter (\<lambda>(k, c). k \<noteq> bin) (caches p)\<rparr>)"
    by (simp add: remove_def)
  show c: "caches (remove bin p) = filter (\<lambda>(k, c). k \<noteq> bin) (caches p)"
    by (simp add: r rootCache_invalidate_def)
  show "rootCache (remove bin p) = map_option StateCache_invalidate (rootCache p)"
    by (simp add: r rootCache_invalidate_def)
  then show "\<forall>rc. rootCache (remove bin p) = Some rc \<longrightarrow> \<not> fresh rc"
    by (auto simp: StateCache_invalidate_def Let_def)
  have n: "bin \<notin> fst ` set (caches (remove bin p))"
    unfolding c by auto
  then show "bin \<notin> set (Object_keys (caches (remove bin p)))"
    by (simp only: Object_keys_set not_False_eq_True)
  show "rootFetcher (leafValue(bin := x)) (remove bin p) = rootFetcher leafValue (remove bin p)"
    using n by (rule rootFetcher_ignores_absent)
qed

theorem remove_discards_registered_dynamic_entry_witness:
  "js ''flow'' \<in> set KNOWN_FLOW_COMMANDS
   \<and> remove (js ''flow'') sample_provider_fresh = sample_provider_fresh
   \<and> \<not> caches_member (caches sample_provider_fresh) (js ''foo'')
   \<and> remove (js ''foo'') sample_provider_fresh = sample_provider_fresh
   \<and> caches_member (caches sample_provider_fresh) (js ''flow-nightly'')
   \<and> js ''flow-nightly'' \<notin> set KNOWN_FLOW_COMMANDS
   \<and> map fst (caches (remove (js ''flow-nightly'') sample_provider_fresh))
       = [js ''flow'', js ''flow-beta'']
   \<and> rootCache (remove (js ''flow-nightly'') sample_provider_fresh)
       = map_option StateCache_invalidate (rootCache sample_provider_fresh)
   \<and> js ''flow-nightly'' \<notin> set (Object_keys (caches (remove (js ''flow-nightly'') sample_provider_fresh)))"
proof -
  have a: "js ''flow'' \<in> set KNOWN_FLOW_COMMANDS"
    by (simp add: KNOWN_FLOW_COMMANDS_def)
  have b: "\<not> caches_member (caches sample_provider_fresh) (js ''foo'')"
    by code_simp
  have c: "caches_member (caches sample_provider_fresh) (js ''flow-nightly'')"
    by code_simp
  have d: "js ''flow-nightly'' \<notin> set KNOWN_FLOW_COMMANDS"
    by code_simp
  have e: "map fst (filter (\<lambda>(k, c). k \<noteq> js ''flow-nightly'') (caches sample_provider_fresh))
       = [js ''flow'', js ''flow-beta'']"
    by code_simp
  from remove_discards_registered_dynamic_entry [of "js ''flow''" sample_provider_fresh] a
  have r1: "remove (js ''flow'') sample_provider_fresh = sample_provider_fresh"
    by blast
  from remove_discards_registered_dynamic_entry [of "js ''foo''" sample_provider_fresh] b
  have r2: "remove (js ''foo'') sample_provider_fresh = sample_provider_fresh"
    by blast
  from remove_discards_registered_dynamic_entry [of "js ''flow-nightly''" sample_provider_fresh] c d
  have r3: "caches (remove (js ''flow-nightly'') sample_provider_fresh)
        = filter (\<lambda>(k, c). k \<noteq> js ''flow-nightly'') (caches sample_provider_fresh)"
    and r4: "rootCache (remove (js ''flow-nightly'') sample_provider_fresh)
        = map_option StateCache_invalidate (rootCache sample_provider_fresh)"
    and r5: "js ''flow-nightly''
        \<notin> set (Object_keys (caches (remove (js ''flow-nightly'') sample_provider_fresh)))"
    by blast+
  have r6: "map fst (caches (remove (js ''flow-nightly'') sample_provider_fresh))
       = [js ''flow'', js ''flow-beta'']"
    by (simp only: r3 e)
  show ?thesis
    using a b c d r1 r2 r4 r5 r6 by (intro conjI)
qed

text \<open>
  C8 as the specification words it (every name that is not a known one has its entry
  discarded and the root entry invalidated) does not hold for a name that was never added:
  \<open>remove\<close> returns at its guard and the root entry stays fresh.
\<close>

theorem remove_unregistered_leaves_root_fresh:
  "js ''foo'' \<notin> set KNOWN_FLOW_COMMANDS
   \<and> remove (js ''foo'') sample_provider_fresh = sample_provider_fresh
   \<and> (\<exists>rc. rootCache (remove (js ''foo'') sample_provider_fresh) = Some rc \<and> fresh rc)
   \<and> rootCache (remove (js ''foo'') sample_provider_fresh)
       \<noteq> map_option StateCache_invalidate (rootCache sample_provider_fresh)"
proof -
  have a: "js ''foo'' \<notin> set KNOWN_FLOW_COMMANDS"
    by code_simp
  have b: "remove (js ''foo'') sample_provider_fresh = sample_provider_fresh"
    by code_simp
  have c: "rootCache sample_provider_fresh
      = Some (new_StateCache\<lparr>cached := Some [sample_binary], fresh := True,
          begun := 1, settled := 1\<rparr>)"
    by (simp add: sample_provider_fresh_value)
  show ?thesis
    using a by (simp add: b c StateCache_invalidate_def Let_def new_StateCache_def)
qed


section \<open>Properties of the supervisor\<close>

lemma watchEmulator_tick_free:
  assumes "\<not> clientLock st"
  shows "watchEmulator_tick p st =
           (Done,
            (snd (emulatorExists p (st\<lparr>clientLock := True\<rparr>)))
              \<lparr>emulatorConnected := fst (emulatorExists p st), clientLock := False\<rparr>,
            if emulatorConnected st = fst (emulatorExists p st) then []
            else [fst (emulatorExists p st)])"
proof (cases p)
  case (ProbeError err)
  with assms show ?thesis
    by (simp add: watchEmulator_tick_def emulatorExists_def emit_def)
next
  case (ProbeStatus status)
  with assms show ?thesis
    by (simp add: watchEmulator_tick_def emulatorExists_def)
qed

text \<open>
  C3. A run of the monitor that gets the lock ends with the lock released and the probed
  reachability recorded. When the probe differs from the recorded state the run calls
  \<open>restart\<close> once, with the probed value, and \<open>restart\<close> passes that value to
  \<open>startClient\<close>; when the probe equals the recorded state the run calls nothing. From
  "not connected", two runs that both find the port open make one restart, with flag true.
\<close>

theorem watchEmulator_restarts_on_transition_only:
  assumes "\<not> clientLock st"
  shows "fst (watchEmulator_tick p st) = Done
       \<and> \<not> clientLock (fst (snd (watchEmulator_tick p st)))
       \<and> emulatorConnected (fst (snd (watchEmulator_tick p st))) = fst (emulatorExists p st)
       \<and> (emulatorConnected st \<noteq> fst (emulatorExists p st) \<longrightarrow>
            snd (snd (watchEmulator_tick p st)) = [fst (emulatorExists p st)]
          \<and> restart (fst (emulatorExists p st)) =
              [StopClient, StartClient (Some (fst (emulatorExists p st)))])
       \<and> (emulatorConnected st = fst (emulatorExists p st) \<longrightarrow>
            snd (snd (watchEmulator_tick p st)) = [])
       \<and> (\<not> emulatorConnected st \<longrightarrow>
            snd (watchEmulator_ticks [ProbeStatus (js ''open''), ProbeStatus (js ''open'')] st)
              = [True])"
proof -
  let ?open = "ProbeStatus (js ''open'')"
  have one: "\<And>q. watchEmulator_tick q st =
           (Done,
            (snd (emulatorExists q (st\<lparr>clientLock := True\<rparr>)))
              \<lparr>emulatorConnected := fst (emulatorExists q st), clientLock := False\<rparr>,
            if emulatorConnected st = fst (emulatorExists q st) then []
            else [fst (emulatorExists q st)])"
    using assms by (rule watchEmulator_tick_free)
  have found: "\<And>s. emulatorExists ?open s = (True, s)"
    by (simp add: emulatorExists_def)
  have two: "\<not> emulatorConnected st \<Longrightarrow>
             snd (watchEmulator_ticks [?open, ?open] st) = [True]"
  proof -
    assume nc: "\<not> emulatorConnected st"
    let ?st1 = "st\<lparr>clientLock := True, emulatorConnected := True, clientLock := False\<rparr>"
    have t1: "watchEmulator_tick ?open st = (Done, ?st1, [True])"
      using nc by (simp add: one found)
    have "\<not> clientLock ?st1" by simp
    then have t2: "watchEmulator_tick ?open ?st1 =
        (Done, (snd (emulatorExists ?open (?st1\<lparr>clientLock := True\<rparr>)))
              \<lparr>emulatorConnected := fst (emulatorExists ?open ?st1), clientLock := False\<rparr>,
            if emulatorConnected ?st1 = fst (emulatorExists ?open ?st1) then []
            else [fst (emulatorExists ?open ?st1)])"
      by (rule watchEmulator_tick_free)
    have t2': "snd (snd (watchEmulator_tick ?open ?st1)) = []"
      unfolding t2 by (simp add: found)
    show ?thesis
      using t2' by (auto simp: t1 split: prod.splits)
  qed
  show ?thesis
    using two by (simp add: one restart_def)
qed

theorem watchEmulator_restarts_on_transition_only_witness:
  "\<not> clientLock (LanguageServerAPI_fields (js ''flow''))
   \<and> snd (snd (watchEmulator_tick (ProbeStatus (js ''open'')) (LanguageServerAPI_fields (js ''flow''))))
       = [True]
   \<and> snd (snd (watchEmulator_tick (ProbeStatus (js ''closed'')) (LanguageServerAPI_fields (js ''flow''))))
       = []
   \<and> snd (watchEmulator_ticks [ProbeStatus (js ''open''), ProbeStatus (js ''open'')]
            (LanguageServerAPI_fields (js ''flow''))) = [True]"
proof -
  let ?st = "LanguageServerAPI_fields (js ''flow'')"
  have free: "\<not> clientLock ?st" by (simp add: LanguageServerAPI_fields_def)
  have nc: "\<not> emulatorConnected ?st" by (simp add: LanguageServerAPI_fields_def)
  have o: "fst (emulatorExists (ProbeStatus (js ''open'')) ?st) = True"
    by (simp add: emulatorExists_def)
  have c: "fst (emulatorExists (ProbeStatus (js ''closed'')) ?st) = False"
    by (simp add: emulatorExists_def js_def)
  show ?thesis
    using watchEmulator_restarts_on_transition_only [OF free, of "ProbeStatus (js ''open'')"]
          watchEmulator_restarts_on_transition_only [OF free, of "ProbeStatus (js ''closed'')"]
          free nc o c
    by simp
qed

text \<open>
  C4 as the source has it. \<open>watchEmulator\<close> hands \<open>setInterval\<close> a delay of
  \<open>1000 * seconds\<close> with \<open>seconds = 3\<close>: the monitor runs every 3000 milliseconds, and
  consecutive runs are 3000 milliseconds apart.
\<close>

theorem watchEmulator_interval_is_three_seconds:
  "watchEmulator_delay = 3000
   \<and> watchEmulator_fires_at (Suc k) - watchEmulator_fires_at k = 3000"
  by (simp add: watchEmulator_fires_at_def watchEmulator_delay_def watchEmulator_seconds_def)

text \<open>C4 as the specification words it (an interval of one second) does not hold.\<close>

theorem watchEmulator_interval_not_one_second:
  "watchEmulator_delay \<noteq> 1000
   \<and> watchEmulator_fires_at 1 - watchEmulator_fires_at 0 \<noteq> 1000"
  by (simp add: watchEmulator_fires_at_def watchEmulator_delay_def watchEmulator_seconds_def)

text \<open>
  C1 as the source has it. A \<open>startClient\<close> that gets the lock and whose configuration
  lookups return runs to its last line: it is fulfilled and the lock is free again, whether
  \<open>client.start()\<close> resolved or rejected (the rejection is caught and shown to the
  user). The call is fulfilled exactly when both lookups return.
\<close>

theorem startClient_releases_lock_at_its_end:
  assumes "\<not> clientLock st"
  shows "(configPath env = Inr cp \<and> settings env = Inr ws \<longrightarrow>
            fst (startClient flag env st) = Done
          \<and> \<not> clientLock (snd (startClient flag env st)))
       \<and> (fst (startClient flag env st) = Done \<longleftrightarrow>
            (\<exists>cp' ws'. configPath env = Inr cp' \<and> settings env = Inr ws'))"
  using assms
  by (cases "configPath env"; cases "settings env")
     (simp_all add: startClient_def Let_def split: prod.splits option.splits)

theorem startClient_releases_lock_at_its_end_witness:
  "\<not> clientLock (LanguageServerAPI_fields (js ''flow''))
   \<and> fst (startClient (Some True)
          \<lparr>probed = ProbeStatus (js ''open''), configPath = Inr (js ''flow.json''),
           settings = Inr \<lparr>numAccounts = js ''3'', settingsAccessCheckMode = js ''strict''\<rparr>,
           startEvents = [Starting, Stopped], startResult = Inl (Error (js ''spawn ENOENT''))\<rparr>
          (LanguageServerAPI_fields (js ''flow''))) = Done
   \<and> \<not> clientLock (snd (startClient (Some True)
          \<lparr>probed = ProbeStatus (js ''open''), configPath = Inr (js ''flow.json''),
           settings = Inr \<lparr>numAccounts = js ''3'', settingsAccessCheckMode = js ''strict''\<rparr>,
           startEvents = [Starting, Stopped], startResult = Inl (Error (js ''spawn ENOENT''))\<rparr>
          (LanguageServerAPI_fields (js ''flow''))))"
proof -
  have free: "\<not> clientLock (LanguageServerAPI_fields (js ''flow''))"
    by (simp add: LanguageServerAPI_fields_def)
  show ?thesis
    using free
      startClient_releases_lock_at_its_end [OF free,
        of "\<lparr>probed = ProbeStatus (js ''open''), configPath = Inr (js ''flow.json''),
            settings = Inr \<lparr>numAccounts = js ''3'', settingsAccessCheckMode = js ''strict''\<rparr>,
            startEvents = [Starting, Stopped], startResult = Inl (Error (js ''spawn ENOENT''))\<rparr>"
           "js ''flow.json''" "\<lparr>numAccounts = js ''3'', settingsAccessCheckMode = js ''strict''\<rparr>"
           "Some True"]
    by simp
qed

text \<open>
  C1 as the specification words it (the lock is released on every exit path, an exception
  thrown inside the operation included) does not hold. When \<open>getConfigPath\<close> rejects,
  \<open>startClient\<close> rejects with the lock still held, and a \<open>stopClient\<close> issued
  afterwards waits for it.
\<close>

theorem startClient_exception_keeps_lock:
  "fst (startClient None
          \<lparr>probed = ProbeStatus (js ''open''), configPath = Inl (Error (js ''no config'')),
           settings = Inr \<lparr>numAccounts = js ''3'', settingsAccessCheckMode = js ''strict''\<rparr>,
           startEvents = [], startResult = Inr ()\<rparr>
          (LanguageServerAPI_fields (js ''flow''))) = Threw (Error (js ''no config''))
   \<and> clientLock (snd (startClient None
          \<lparr>probed = ProbeStatus (js ''open''), configPath = Inl (Error (js ''no config'')),
           settings = Inr \<lparr>numAccounts = js ''3'', settingsAccessCheckMode = js ''strict''\<rparr>,
           startEvents = [], startResult = Inr ()\<rparr>
          (LanguageServerAPI_fields (js ''flow''))))
   \<and> fst (stopClient (snd (startClient None
          \<lparr>probed = ProbeStatus (js ''open''), configPath = Inl (Error (js ''no config'')),
           settings = Inr \<lparr>numAccounts = js ''3'', settingsAccessCheckMode = js ''strict''\<rparr>,
           startEvents = [], startResult = Inr ()\<rparr>
          (LanguageServerAPI_fields (js ''flow''))))) = Waiting"
  by (simp add: startClient_def stopClient_def LanguageServerAPI_fields_def emulatorExists_def
        Let_def)

end
